theory Spec2Isabelle
  imports Main "HOL-Library.Word"
begin

unbundle bit_operations_syntax

section \<open>JavaScript strings\<close>

text \<open>
  A JavaScript string is a sequence of 16-bit code units. Right-to-left text, emoji
  (surrogate pairs) and lone surrogates are all just code units, so the three editor
  buffers of \<^verbatim>\<open>App.tsx\<close> range over every value of this type. ASCII literals of
  the source are written with \<open>ascii\<close>.
\<close>

type_synonym jsstring = "16 word list"

definition ascii :: "string \<Rightarrow> jsstring" where
  "ascii s = map of_char s"

text \<open>\<^verbatim>\<open>s.charAt(i)\<close>: the one-unit string at \<open>i\<close>, the empty string out of range.\<close>

definition charAt :: "jsstring \<Rightarrow> nat \<Rightarrow> jsstring" where
  "charAt s i = (if i < length s then [s ! i] else [])"

text \<open>
  Assignment \<^verbatim>\<open>obj[k] = v\<close> on an object created by \<^verbatim>\<open>{}\<close>, seen through
  \<^verbatim>\<open>hasOwnProperty\<close>: every key becomes an own property except \<^verbatim>\<open>__proto__\<close>,
  whose inherited setter ignores a number.
\<close>

definition obj_set :: "(jsstring \<rightharpoonup> 'a) \<Rightarrow> jsstring \<Rightarrow> 'a \<Rightarrow> (jsstring \<rightharpoonup> 'a)" where
  "obj_set obj k v = (if k = ascii ''__proto__'' then obj else obj(k \<mapsto> v))"

section \<open>The lz-string dependency: compression\<close>

text \<open>
  \<^verbatim>\<open>encodeCode\<close> and \<^verbatim>\<open>decodeCode\<close> call \<^verbatim>\<open>LZString.compressToEncodedURIComponent\<close>
  and \<^verbatim>\<open>LZString.decompressFromEncodedURIComponent\<close> of the npm package lz-string
  (releases 1.4.4 and 1.5.0 share the algorithm below). The functions are embedded with the
  library's own variable names. Counters are natural numbers: the 32-bit shifts of the
  library would wrap only at 31-bit codes, which takes more characters than a string can hold.
\<close>

definition keyStrUriSafe :: jsstring where
  "keyStrUriSafe = ascii ''ABCDEFGHIJKLMNOPQRSTUVWXYZabcdefghijklmnopqrstuvwxyz0123456789+-$''"

record compress_context =
  context_dictionary :: "jsstring \<rightharpoonup> nat"
  context_dictionaryToCreate :: "jsstring set"
  context_w :: jsstring
  context_enlargeIn :: int
  context_dictSize :: nat
  context_numBits :: nat
  context_data :: "jsstring list"
  context_data_val :: nat
  context_data_position :: nat

text \<open>
  One pass of the body that the library repeats for every output bit:
  shift \<open>context_data_val\<close>, or the bit in, and push a character when
  \<open>bitsPerChar\<close> bits are collected.
\<close>

definition write_bit ::
  "nat \<Rightarrow> (nat \<Rightarrow> jsstring) \<Rightarrow> nat \<Rightarrow> compress_context \<Rightarrow> compress_context" where
  "write_bit bitsPerChar getCharFromInt b s =
     (let v = push_bit 1 (context_data_val s) OR b in
      if context_data_position s = bitsPerChar - 1
      then s\<lparr>context_data_position := 0,
             context_data := context_data s @ [getCharFromInt v],
             context_data_val := 0\<rparr>
      else s\<lparr>context_data_val := v,
             context_data_position := context_data_position s + 1\<rparr>)"

text \<open>
  \<^verbatim>\<open>for (i=0; i<n; i++) { ... (value&1) ...; value = value >> 1; }\<close>: the low \<open>n\<close>
  bits of \<open>value\<close>, least significant first.
\<close>

fun write_value ::
  "nat \<Rightarrow> (nat \<Rightarrow> jsstring) \<Rightarrow> nat \<Rightarrow> nat \<Rightarrow> compress_context \<Rightarrow> compress_context" where
  "write_value bitsPerChar getCharFromInt 0 v s = s"
| "write_value bitsPerChar getCharFromInt (Suc n) v s =
     write_value bitsPerChar getCharFromInt n (drop_bit 1 v)
       (write_bit bitsPerChar getCharFromInt (v AND 1) s)"

text \<open>
  \<^verbatim>\<open>context_enlargeIn--; if (context_enlargeIn == 0) { context_enlargeIn =
  Math.pow(2, context_numBits); context_numBits++; }\<close>
\<close>

definition enlarge :: "compress_context \<Rightarrow> compress_context" where
  "enlarge s =
     (let e = context_enlargeIn s - 1 in
      if e = 0
      then s\<lparr>context_enlargeIn := 2 ^ context_numBits s,
             context_numBits := context_numBits s + 1\<rparr>
      else s\<lparr>context_enlargeIn := e\<rparr>)"

text \<open>
  The block that writes the code of \<open>context_w\<close> (it occurs twice in the library, inside
  the loop and after it). A phrase still in \<open>context_dictionaryToCreate\<close> is a character
  seen for the first time: marker 0 and 8 bits when its code is below 256, marker 1 and
  16 bits otherwise. \<^verbatim>\<open>"".charCodeAt(0)\<close> is NaN, which fails the comparison and has
  only zero bits; a missing dictionary entry is \<^verbatim>\<open>undefined\<close>, with only zero bits too.
\<close>

definition output_w :: "nat \<Rightarrow> (nat \<Rightarrow> jsstring) \<Rightarrow> compress_context \<Rightarrow> compress_context" where
  "output_w bitsPerChar getCharFromInt s =
     enlarge
      (if context_w s \<in> context_dictionaryToCreate s
       then
         (let s1 =
            (case context_w s of
               [] \<Rightarrow>
                 write_value bitsPerChar getCharFromInt 16 0
                   (write_value bitsPerChar getCharFromInt (context_numBits s) 1 s)
             | u # us \<Rightarrow>
                 if unat u < 256
                 then write_value bitsPerChar getCharFromInt 8 (unat u)
                        (write_value bitsPerChar getCharFromInt (context_numBits s) 0 s)
                 else write_value bitsPerChar getCharFromInt 16 (unat u)
                        (write_value bitsPerChar getCharFromInt (context_numBits s) 1 s));
              s2 = enlarge s1
          in s2\<lparr>context_dictionaryToCreate := context_dictionaryToCreate s2 - {context_w s}\<rparr>)
       else
         write_value bitsPerChar getCharFromInt (context_numBits s)
           (case context_dictionary s (context_w s) of None \<Rightarrow> 0 | Some v \<Rightarrow> v) s)"

text \<open>
  The body of the loop over the characters of \<open>uncompressed\<close>, in three parts. First
  \<^verbatim>\<open>if (!hasOwnProperty(context_dictionary, context_c)) { context_dictionary[context_c]
  = context_dictSize++; context_dictionaryToCreate[context_c] = true; }\<close>
\<close>

definition register_char :: "compress_context \<Rightarrow> jsstring \<Rightarrow> compress_context" where
  "register_char s context_c =
     (if context_dictionary s context_c = None
      then s\<lparr>context_dictionary :=
                 obj_set (context_dictionary s) context_c (context_dictSize s),
               context_dictSize := context_dictSize s + 1,
               context_dictionaryToCreate := insert context_c (context_dictionaryToCreate s)\<rparr>
      else s)"

text \<open>
  Last \<^verbatim>\<open>context_dictionary[context_wc] = context_dictSize++; context_w =
  String(context_c);\<close>
\<close>

definition add_phrase :: "compress_context \<Rightarrow> jsstring \<Rightarrow> jsstring \<Rightarrow> compress_context" where
  "add_phrase s context_wc context_c =
     s\<lparr>context_dictionary := obj_set (context_dictionary s) context_wc (context_dictSize s),
       context_dictSize := context_dictSize s + 1,
       context_w := context_c\<rparr>"

definition compress_char ::
  "nat \<Rightarrow> (nat \<Rightarrow> jsstring) \<Rightarrow> compress_context \<Rightarrow> 16 word \<Rightarrow> compress_context" where
  "compress_char bitsPerChar getCharFromInt s0 u =
     (let context_c = [u];
          s = register_char s0 context_c;
          context_wc = context_w s @ context_c
      in if context_dictionary s context_wc \<noteq> None
         then s\<lparr>context_w := context_wc\<rparr>
         else add_phrase (output_w bitsPerChar getCharFromInt s) context_wc context_c)"

definition compress_init :: compress_context where
  "compress_init =
     \<lparr>context_dictionary = Map.empty,
      context_dictionaryToCreate = {},
      context_w = [],
      context_enlargeIn = 2,
      context_dictSize = 3,
      context_numBits = 2,
      context_data = [],
      context_data_val = 0,
      context_data_position = 0\<rparr>"

text \<open>
  \<^verbatim>\<open>while (true) { context_data_val = (context_data_val << 1); if
  (context_data_position == bitsPerChar-1) { push; break; } else context_data_position++; }\<close>
  The position is below \<open>bitsPerChar\<close> whenever the loop is entered (lemma
  \<open>position_bound\<close> below), so the loop runs \<open>bitsPerChar - context_data_position\<close>
  times, each pass being \<open>write_bit\<close> of a zero.
\<close>

definition flush :: "nat \<Rightarrow> (nat \<Rightarrow> jsstring) \<Rightarrow> compress_context \<Rightarrow> compress_context" where
  "flush bitsPerChar getCharFromInt s =
     write_value bitsPerChar getCharFromInt (bitsPerChar - context_data_position s) 0 s"

definition LZ_compress :: "jsstring \<Rightarrow> nat \<Rightarrow> (nat \<Rightarrow> jsstring) \<Rightarrow> jsstring" where
  "LZ_compress uncompressed bitsPerChar getCharFromInt =
     (let s1 = foldl (compress_char bitsPerChar getCharFromInt) compress_init uncompressed;
          s2 = (if context_w s1 \<noteq> [] then output_w bitsPerChar getCharFromInt s1 else s1);
          s3 = write_value bitsPerChar getCharFromInt (context_numBits s2) 2 s2;
          s4 = flush bitsPerChar getCharFromInt s3
      in concat (context_data s4))"

definition compressToEncodedURIComponent :: "jsstring \<Rightarrow> jsstring" where
  "compressToEncodedURIComponent input = LZ_compress input 6 (charAt keyStrUriSafe)"

section \<open>The lz-string dependency: decompression\<close>

text \<open>
  \<^verbatim>\<open>getBaseValue(alphabet, character)\<close>: the table is filled by a loop over the
  alphabet, so a later occurrence of a character would win; a character that is not in
  the alphabet (or the empty string of a read past the end) yields \<^verbatim>\<open>undefined\<close>.
\<close>

definition getBaseValue :: "jsstring \<Rightarrow> jsstring \<Rightarrow> nat option" where
  "getBaseValue alphabet character =
     map_of (rev (zip (map (\<lambda>u. [u]) alphabet) [0..<length alphabet])) character"

text \<open>The reader \<^verbatim>\<open>data = {val, position, index}\<close>; \<open>None\<close> is \<^verbatim>\<open>undefined\<close>.\<close>

record dstream =
  val :: "nat option"
  position :: nat
  index :: nat

text \<open>
  \<^verbatim>\<open>resb = data.val & data.position; data.position >>= 1; if (data.position == 0)
  { data.position = resetValue; data.val = getNextValue(data.index++); }\<close>, returning
  \<^verbatim>\<open>resb>0 ? 1 : 0\<close>. Bitwise and with \<^verbatim>\<open>undefined\<close> is 0.
\<close>

definition read_bit :: "(nat \<Rightarrow> nat option) \<Rightarrow> nat \<Rightarrow> dstream \<Rightarrow> nat \<times> dstream" where
  "read_bit getNextValue resetValue d =
     (let resb = (case val d of None \<Rightarrow> 0 | Some v \<Rightarrow> v AND position d);
          p = drop_bit 1 (position d)
      in (if resb > 0 then 1 else 0,
          if p = 0
          then \<lparr>val = getNextValue (index d), position = resetValue, index = index d + 1\<rparr>
          else d\<lparr>position := p\<rparr>))"

text \<open>
  \<^verbatim>\<open>bits = 0; maxpower = Math.pow(2,n); power = 1; while (power != maxpower) { ...;
  bits |= (resb>0 ? 1 : 0) * power; power <<= 1; }\<close>: \<open>n\<close> bits, the first read being
  the least significant.
\<close>

fun read_bits :: "(nat \<Rightarrow> nat option) \<Rightarrow> nat \<Rightarrow> nat \<Rightarrow> dstream \<Rightarrow> nat \<times> dstream" where
  "read_bits getNextValue resetValue 0 d = (0, d)"
| "read_bits getNextValue resetValue (Suc n) d =
     (let (b, d1) = read_bit getNextValue resetValue d;
          (v, d2) = read_bits getNextValue resetValue n d1
      in (b + 2 * v, d2))"

text \<open>
  The decoder's array \<open>dictionary\<close> starts as \<^verbatim>\<open>[0, 1, 2]\<close> (numbers) and then holds
  strings; its fourth entry, the first character, is \<^verbatim>\<open>undefined\<close> when the
  two-bit header of the stream is 3, which no case of the \<^verbatim>\<open>switch\<close> handles.
\<close>

datatype dict_entry = DNum nat | DStr jsstring | DUndefined

text \<open>\<^verbatim>\<open>if (dictionary[c])\<close>: a read past the end is \<^verbatim>\<open>undefined\<close>.\<close>

definition truthy_at :: "dict_entry list \<Rightarrow> nat \<Rightarrow> bool" where
  "truthy_at xs i =
     (i < length xs \<and>
      (case xs ! i of DNum n \<Rightarrow> n \<noteq> 0 | DStr s \<Rightarrow> s \<noteq> [] | DUndefined \<Rightarrow> False))"

text \<open>\<^verbatim>\<open>arr[i] = v\<close>: a write at or past the end extends the array, leaving holes.\<close>

definition array_set :: "dict_entry list \<Rightarrow> nat \<Rightarrow> dict_entry \<Rightarrow> dict_entry list" where
  "array_set xs i v =
     (if i < length xs then xs[i := v]
      else xs @ replicate (i - length xs) DUndefined @ [v])"

text \<open>\<^verbatim>\<open>w + s\<close> for a string \<open>s\<close>: \<^verbatim>\<open>undefined\<close> is converted to its name.\<close>

definition plus_string :: "jsstring option \<Rightarrow> jsstring \<Rightarrow> jsstring" where
  "plus_string x s = (case x of None \<Rightarrow> ascii ''undefined'' @ s | Some t \<Rightarrow> t @ s)"

text \<open>\<^verbatim>\<open>result.join('')\<close>: \<^verbatim>\<open>undefined\<close> elements are joined as empty strings.\<close>

definition join :: "jsstring option list \<Rightarrow> jsstring" where
  "join xs = concat (map (\<lambda>x. case x of None \<Rightarrow> [] | Some t \<Rightarrow> t) xs)"

text \<open>\<^verbatim>\<open>String.fromCharCode(bits)\<close>, a one-unit string (the code is taken modulo 65536).\<close>

definition fromCharCode :: "nat \<Rightarrow> jsstring" where
  "fromCharCode bits = [of_nat bits]"

text \<open>What a call returns: a value, or an exception (only \<^verbatim>\<open>TypeError\<close> and
  \<^verbatim>\<open>SyntaxError\<close> occur).\<close>

datatype 'a completion = Returns 'a | Throws

record decompress_state =
  dictionary :: "dict_entry list"
  enlargeIn :: int
  dictSize :: nat
  numBits :: nat
  w :: "jsstring option"
  result :: "jsstring option list"
  data :: dstream

text \<open>
  One pass of the \<^verbatim>\<open>while (true)\<close> loop of \<^verbatim>\<open>_decompress\<close>, after its test of
  \<^verbatim>\<open>data.index > length\<close>: \<open>Inl\<close> when the pass returns or throws, \<open>Inr\<close> the state
  for the next pass. \<open>None\<close> as a returned value is \<^verbatim>\<open>null\<close>. Calling
  \<^verbatim>\<open>charAt\<close> on \<^verbatim>\<open>undefined\<close> or on a number is a TypeError.
\<close>

definition decompress_pass ::
  "(nat \<Rightarrow> nat option) \<Rightarrow> nat \<Rightarrow> decompress_state
     \<Rightarrow> jsstring option completion + decompress_state" where
  "decompress_pass getNextValue resetValue s =
     (let (c0, d1) = read_bits getNextValue resetValue (numBits s) (data s) in
      if c0 = 2 then Inl (Returns (Some (join (result s))))
      else
        (let s1 =
           (if c0 = 0 \<or> c0 = 1
            then
              (let (bits, d2) =
                     read_bits getNextValue resetValue (if c0 = 0 then 8 else 16) d1
               in s\<lparr>dictionary := array_set (dictionary s) (dictSize s) (DStr (fromCharCode bits)),
                     dictSize := dictSize s + 1,
                     enlargeIn := enlargeIn s - 1,
                     data := d2\<rparr>)
            else s\<lparr>data := d1\<rparr>);
             c = (if c0 = 0 \<or> c0 = 1 then dictSize s1 - 1 else c0);
             s2 = (if enlargeIn s1 = 0
                   then s1\<lparr>enlargeIn := 2 ^ numBits s1, numBits := numBits s1 + 1\<rparr>
                   else s1);
             entry =
               (if truthy_at (dictionary s2) c
                then (case dictionary s2 ! c of
                        DStr e \<Rightarrow> Inr e
                      | _ \<Rightarrow> Inl Throws)
                else if c = dictSize s2
                then (case w s2 of
                        None \<Rightarrow> Inl Throws
                      | Some t \<Rightarrow> Inr (t @ charAt t 0))
                else Inl (Returns None))
         in case entry of
              Inl r \<Rightarrow> Inl r
            | Inr e \<Rightarrow>
                (let s3 = s2\<lparr>result := result s2 @ [Some e],
                             dictionary :=
                               array_set (dictionary s2) (dictSize s2)
                                 (DStr (plus_string (w s2) (charAt e 0))),
                             dictSize := dictSize s2 + 1,
                             enlargeIn := enlargeIn s2 - 1,
                             w := Some e\<rparr>
                 in Inr (if enlargeIn s3 = 0
                         then s3\<lparr>enlargeIn := 2 ^ numBits s3, numBits := numBits s3 + 1\<rparr>
                         else s3))))"

text \<open>
  Every pass reads at least one bit, which moves the reader forward: a later character,
  or the same character and a smaller bit mask. This is what makes the loop end.
\<close>

definition advanced :: "dstream \<Rightarrow> dstream \<Rightarrow> bool" where
  "advanced d d' \<longleftrightarrow>
     index d < index d' \<or> (index d' = index d \<and> position d' < position d)"

lemma advanced_trans: "advanced a b \<Longrightarrow> advanced b c \<Longrightarrow> advanced a c"
  by (auto simp: advanced_def)

lemma read_bit_advanced: "read_bit g r d = (b, d') \<Longrightarrow> advanced d d'"
  by (auto simp: read_bit_def advanced_def Let_def drop_bit_Suc
      split: if_splits intro!: div_less_dividend)

lemma read_bits_advanced_or_same:
  "read_bits g r n d = (v, d') \<Longrightarrow> d' = d \<or> advanced d d'"
proof (induction n arbitrary: d v d')
  case 0
  then show ?case by simp
next
  case (Suc n)
  obtain b d1 where b: "read_bit g r d = (b, d1)"
    by (cases "read_bit g r d")
  obtain v2 d2 where v2: "read_bits g r n d1 = (v2, d2)"
    by (cases "read_bits g r n d1")
  from Suc.prems b v2 have d': "d' = d2"
    by simp
  from Suc.IH [OF v2] read_bit_advanced [OF b] show ?case
    unfolding d' by (auto intro: advanced_trans)
qed

lemma read_bits_advanced:
  "read_bits g r n d = (v, d') \<Longrightarrow> 0 < n \<Longrightarrow> advanced d d'"
proof (cases n)
  case 0
  assume "0 < n"
  with 0 show ?thesis by simp
next
  case (Suc m)
  assume r: "read_bits g r n d = (v, d')"
  obtain b d1 where b: "read_bit g r d = (b, d1)"
    by (cases "read_bit g r d")
  obtain v2 d2 where v2: "read_bits g r m d1 = (v2, d2)"
    by (cases "read_bits g r m d1")
  from r Suc b v2 have d': "d' = d2"
    by simp
  from read_bits_advanced_or_same [OF v2] read_bit_advanced [OF b] show ?thesis
    unfolding d' by (auto intro: advanced_trans)
qed

lemma decompress_pass_advanced:
  assumes "decompress_pass g r s = Inr s'"
  shows "advanced (data s) (data s')"
proof -
  obtain c0 d1 where c0: "read_bits g r (numBits s) (data s) = (c0, d1)"
    by (cases "read_bits g r (numBits s) (data s)")
  have a1: "d1 = data s \<or> advanced (data s) d1"
    using read_bits_advanced_or_same [OF c0] .
  show ?thesis
  proof (cases "c0 = 0 \<or> c0 = 1")
    case True
    obtain bits d2 where d2: "read_bits g r (if c0 = 0 then 8 else 16) d1 = (bits, d2)"
      by (cases "read_bits g r (if c0 = 0 then 8 else 16) d1")
    have a2: "advanced d1 d2"
      using read_bits_advanced [OF d2] by simp
    have "data s' = d2"
      using assms c0 d2 True
      by (auto simp: decompress_pass_def Let_def split: if_splits sum.splits)
    with a1 a2 show ?thesis
      by (auto intro: advanced_trans)
  next
    case False
    then have "numBits s \<noteq> 0"
      using c0 by (cases "numBits s") auto
    then have a: "advanced (data s) d1"
      using read_bits_advanced [OF c0] by simp
    have "data s' = d1"
      using assms c0 False
      by (auto simp: decompress_pass_def Let_def split: if_splits sum.splits)
    with a show ?thesis
      by simp
  qed
qed

text \<open>
  The \<^verbatim>\<open>while (true)\<close> loop: \<^verbatim>\<open>if (data.index > length) return "";\<close> and then the
  pass.
\<close>

function decompress_loop ::
  "nat \<Rightarrow> nat \<Rightarrow> (nat \<Rightarrow> nat option) \<Rightarrow> decompress_state \<Rightarrow> jsstring option completion" where
  "decompress_loop len resetValue getNextValue s =
     (if index (data s) > len then Returns (Some [])
      else case decompress_pass getNextValue resetValue s of
             Inl r \<Rightarrow> r
           | Inr s' \<Rightarrow> decompress_loop len resetValue getNextValue s')"
  by pat_completeness auto
termination
proof (relation "measures [\<lambda>(len, r, g, s). Suc len - index (data s),
                          \<lambda>(len, r, g, s). position (data s)]")
  show "wf (measures [\<lambda>(len, r, g, s). Suc len - index (data s),
                      \<lambda>(len, r, g, s). position (data s)])"
    by simp
next
  fix len resetValue :: nat and getNextValue :: "nat \<Rightarrow> nat option"
    and s s' :: decompress_state
  assume "\<not> len < index (data s)" and "decompress_pass getNextValue resetValue s = Inr s'"
  then show "((len, resetValue, getNextValue, s'), (len, resetValue, getNextValue, s))
      \<in> measures [\<lambda>(len, r, g, s). Suc len - index (data s),
                   \<lambda>(len, r, g, s). position (data s)]"
    using decompress_pass_advanced [of getNextValue resetValue s s']
    by (auto simp: advanced_def)
qed

text \<open>
  \<^verbatim>\<open>_decompress(length, resetValue, getNextValue)\<close>: the two-bit header, the first
  character, then the loop. Header 2 is the empty string; header 3 matches no case and
  leaves the first character \<^verbatim>\<open>undefined\<close>.
\<close>

definition LZ_decompress ::
  "nat \<Rightarrow> nat \<Rightarrow> (nat \<Rightarrow> nat option) \<Rightarrow> jsstring option completion" where
  "LZ_decompress len resetValue getNextValue =
     (let d0 = \<lparr>val = getNextValue 0, position = resetValue, index = 1\<rparr>;
          (next, d1) = read_bits getNextValue resetValue 2 d0
      in if next = 2 then Returns (Some [])
         else
           (let (c, d2) =
                  (if next = 0
                   then (let (bits, d) = read_bits getNextValue resetValue 8 d1
                         in (Some (fromCharCode bits), d))
                   else if next = 1
                   then (let (bits, d) = read_bits getNextValue resetValue 16 d1
                         in (Some (fromCharCode bits), d))
                   else (None, d1))
            in decompress_loop len resetValue getNextValue
                 \<lparr>dictionary =
                    [DNum 0, DNum 1, DNum 2,
                     (case c of None \<Rightarrow> DUndefined | Some t \<Rightarrow> DStr t)],
                  enlargeIn = 4,
                  dictSize = 4,
                  numBits = 3,
                  w = c,
                  result = [c],
                  data = d2\<rparr>))"

text \<open>
  \<^verbatim>\<open>if (input == "") return null; input = input.replace(/ /g, "+");\<close> and the call of
  \<^verbatim>\<open>_decompress\<close> with 6-bit characters (\<open>resetValue\<close> 32).
\<close>

definition decompressFromEncodedURIComponent :: "jsstring \<Rightarrow> jsstring option completion" where
  "decompressFromEncodedURIComponent input0 =
     (if input0 = [] then Returns None
      else
        (let input = map (\<lambda>u. if u = of_char CHR '' '' then of_char CHR ''+'' else u) input0
         in LZ_decompress (length input) 32
              (\<lambda>i. getBaseValue keyStrUriSafe (charAt input i))))"

section \<open>The built-in JSON object\<close>

text \<open>
  The values \<^verbatim>\<open>JSON.parse\<close> can return. An object is its list of own properties (a
  repeated name overwrites the value in place); nothing in \<^verbatim>\<open>App.tsx\<close> enumerates
  properties, so only lookups are observed. A number is kept as the exact decimal
  \<open>\<plusminus> mantissa * 10 ^ exponent\<close> of its literal: the rounding to a double is not
  modelled beyond the test for zero that \<^verbatim>\<open>if (decoded)\<close> needs.
\<close>

datatype json =
    JNull
  | JBool bool
  | JNumber bool nat int
  | JString jsstring
  | JArray "json list"
  | JObject "(jsstring \<times> json) list"

subsection \<open>JSON.stringify of an object whose properties are strings\<close>

definition hex_digit :: "nat \<Rightarrow> 16 word" where
  "hex_digit n = (if n < 10 then of_nat (48 + n) else of_nat (87 + n))"

text \<open>\<^verbatim>\<open>UnicodeEscape\<close>: backslash, \<open>u\<close> and four lowercase hexadecimal digits.\<close>

definition UnicodeEscape :: "16 word \<Rightarrow> jsstring" where
  "UnicodeEscape u =
     (let n = unat u
      in [0x5C, 0x75, hex_digit (n div 4096), hex_digit (n div 256 mod 16),
          hex_digit (n div 16 mod 16), hex_digit (n mod 16)])"

definition is_leading_surrogate :: "16 word \<Rightarrow> bool" where
  "is_leading_surrogate u \<longleftrightarrow> 0xD800 \<le> u \<and> u \<le> 0xDBFF"

definition is_trailing_surrogate :: "16 word \<Rightarrow> bool" where
  "is_trailing_surrogate u \<longleftrightarrow> 0xDC00 \<le> u \<and> u \<le> 0xDFFF"

text \<open>
  One code point that is a single code unit, as \<^verbatim>\<open>QuoteJSONString\<close> writes it: the
  two-character escapes of backspace, tab, line feed, form feed, carriage return, the
  double quote and the backslash; a \<^verbatim>\<open>\u\<close> escape for the other control characters
  and for a surrogate (which, being alone here, is unpaired); the unit itself otherwise.
\<close>

definition quote_unit :: "16 word \<Rightarrow> jsstring" where
  "quote_unit u =
     (if u = 0x08 then [0x5C, 0x62]
      else if u = 0x09 then [0x5C, 0x74]
      else if u = 0x0A then [0x5C, 0x6E]
      else if u = 0x0C then [0x5C, 0x66]
      else if u = 0x0D then [0x5C, 0x72]
      else if u = 0x22 then [0x5C, 0x22]
      else if u = 0x5C then [0x5C, 0x5C]
      else if u < 0x20 \<or> is_leading_surrogate u \<or> is_trailing_surrogate u
      then UnicodeEscape u
      else [u])"

text \<open>The code points of the string in order: a surrogate pair is copied unchanged.\<close>

fun quote_units :: "jsstring \<Rightarrow> jsstring" where
  "quote_units [] = []"
| "quote_units [u] = quote_unit u"
| "quote_units (u # v # us) =
     (if is_leading_surrogate u \<and> is_trailing_surrogate v
      then u # v # quote_units us
      else quote_unit u @ quote_units (v # us))"

definition QuoteJSONString :: "jsstring \<Rightarrow> jsstring" where
  "QuoteJSONString s = [0x22] @ quote_units s @ [0x22]"

text \<open>
  \<^verbatim>\<open>SerializeJSONObject\<close> without indentation: the properties in creation order,
  \<open>name:value\<close> joined by commas between braces.
\<close>

fun join_comma :: "jsstring list \<Rightarrow> jsstring" where
  "join_comma [] = []"
| "join_comma [x] = x"
| "join_comma (x # y # ys) = x @ [0x2C] @ join_comma (y # ys)"

definition JSON_stringify :: "(jsstring \<times> jsstring) list \<Rightarrow> jsstring" where
  "JSON_stringify props =
     [0x7B] @
     join_comma (map (\<lambda>(k, v). QuoteJSONString k @ [0x3A] @ QuoteJSONString v) props) @
     [0x7D]"

subsection \<open>JSON.parse: the lexical grammar\<close>

datatype token =
    TLBrace | TRBrace | TLBracket | TRBracket | TColon | TComma
  | TString jsstring
  | TNumber bool nat int
  | TTrue | TFalse | TNull

definition hex_value :: "16 word \<Rightarrow> nat option" where
  "hex_value u =
     (let n = unat u
      in if 48 \<le> n \<and> n \<le> 57 then Some (n - 48)
         else if 97 \<le> n \<and> n \<le> 102 then Some (n - 87)
         else if 65 \<le> n \<and> n \<le> 70 then Some (n - 55)
         else None)"

definition hex4 :: "16 word \<Rightarrow> 16 word \<Rightarrow> 16 word \<Rightarrow> 16 word \<Rightarrow> 16 word option" where
  "hex4 a b c d =
     (case (hex_value a, hex_value b, hex_value c, hex_value d) of
        (Some x, Some y, Some z, Some t) \<Rightarrow> Some (of_nat (((x * 16 + y) * 16 + z) * 16 + t))
      | _ \<Rightarrow> None)"

text \<open>The character after a backslash, other than \<open>u\<close>.\<close>

definition unescape :: "16 word \<Rightarrow> 16 word option" where
  "unescape e =
     (if e = 0x22 then Some 0x22
      else if e = 0x5C then Some 0x5C
      else if e = 0x2F then Some 0x2F
      else if e = 0x62 then Some 0x08
      else if e = 0x66 then Some 0x0C
      else if e = 0x6E then Some 0x0A
      else if e = 0x72 then Some 0x0D
      else if e = 0x74 then Some 0x09
      else None)"

text \<open>
  The rest of a string literal after its opening quote: the string value and what
  follows the closing quote. A control character, an unknown escape and the end of the
  input inside the literal are syntax errors.
\<close>

fun lex_string :: "jsstring \<Rightarrow> (jsstring \<times> jsstring) option" where
  "lex_string [] = None"
| "lex_string (c # cs) =
     (if c = 0x22 then Some ([], cs)
      else if c = 0x5C then
        (case cs of
           [] \<Rightarrow> None
         | e # cs1 \<Rightarrow>
             if e = 0x75 then
               (case cs1 of
                  h1 # h2 # h3 # h4 # cs2 \<Rightarrow>
                    (case hex4 h1 h2 h3 h4 of
                       None \<Rightarrow> None
                     | Some u \<Rightarrow>
                         (case lex_string cs2 of
                            None \<Rightarrow> None
                          | Some (s, r) \<Rightarrow> Some (u # s, r)))
                | _ \<Rightarrow> None)
             else
               (case unescape e of
                  None \<Rightarrow> None
                | Some u \<Rightarrow>
                    (case lex_string cs1 of
                       None \<Rightarrow> None
                     | Some (s, r) \<Rightarrow> Some (u # s, r))))
      else if c < 0x20 then None
      else (case lex_string cs of
              None \<Rightarrow> None
            | Some (s, r) \<Rightarrow> Some (c # s, r)))"

definition is_digit :: "16 word \<Rightarrow> bool" where
  "is_digit u \<longleftrightarrow> 0x30 \<le> u \<and> u \<le> 0x39"

text \<open>The number that a run of decimal digits writes.\<close>

definition digits_value :: "jsstring \<Rightarrow> nat" where
  "digits_value ds = foldl (\<lambda>n u. 10 * n + (unat u - 48)) 0 ds"

text \<open>
  A number literal: an optional minus, \<open>0\<close> or a digit run without leading zero, an
  optional fraction with at least one digit, an optional exponent with at least one
  digit. (After a leading \<open>0\<close> a further digit would start a second value, which no
  position of the grammar allows: it is refused here.) The result is the sign, the
  mantissa and the decimal exponent, and the rest of the input.
\<close>

definition lex_frac :: "jsstring \<Rightarrow> (jsstring \<times> jsstring) option" where
  "lex_frac s =
     (case s of
        [] \<Rightarrow> Some ([], s)
      | c # cs \<Rightarrow>
          if c = 0x2E
          then (if takeWhile is_digit cs = [] then None
                else Some (takeWhile is_digit cs, dropWhile is_digit cs))
          else Some ([], s))"

definition lex_sign :: "jsstring \<Rightarrow> bool \<times> jsstring" where
  "lex_sign s =
     (case s of
        [] \<Rightarrow> (False, s)
      | c # cs \<Rightarrow> if c = 0x2D then (True, cs) else if c = 0x2B then (False, cs) else (False, s))"

definition lex_exp :: "jsstring \<Rightarrow> (int \<times> jsstring) option" where
  "lex_exp s =
     (case s of
        [] \<Rightarrow> Some (0, s)
      | c # cs \<Rightarrow>
          if c = 0x65 \<or> c = 0x45
          then (let (eneg, cs1) = lex_sign cs;
                    es = takeWhile is_digit cs1
                in if es = [] then None
                   else Some (if eneg then - int (digits_value es) else int (digits_value es),
                              dropWhile is_digit cs1))
          else Some (0, s))"

definition lex_number :: "jsstring \<Rightarrow> ((bool \<times> nat \<times> int) \<times> jsstring) option" where
  "lex_number s =
     (let (neg, s1) = (case s of [] \<Rightarrow> (False, s)
                       | c # cs \<Rightarrow> if c = 0x2D then (True, cs) else (False, s));
          ds = takeWhile is_digit s1
      in if ds = [] \<or> (hd ds = 0x30 \<and> length ds > 1) then None
         else
           (case lex_frac (dropWhile is_digit s1) of
              None \<Rightarrow> None
            | Some (fs, s3) \<Rightarrow>
                (case lex_exp s3 of
                   None \<Rightarrow> None
                 | Some (e, s6) \<Rightarrow>
                     Some ((neg, digits_value (ds @ fs), e - int (length fs)), s6))))"

lemma lex_string_length: "lex_string cs = Some (s, r) \<Longrightarrow> length r < Suc (length cs)"
proof (induction cs arbitrary: s r rule: lex_string.induct)
  case 1
  then show ?case by simp
next
  case (2 c cs)
  then show ?case
    by (fastforce split: if_splits list.splits option.splits)
qed

lemma lex_frac_length: "lex_frac s = Some (fs, r) \<Longrightarrow> length r \<le> length s"
  using length_dropWhile_le [of is_digit "tl s"]
  by (cases s) (auto simp: lex_frac_def split: if_splits)

lemma lex_sign_length: "lex_sign s = (b, r) \<Longrightarrow> length r \<le> length s"
  by (cases s) (auto simp: lex_sign_def split: if_splits)

lemma lex_exp_length:
  assumes "lex_exp s = Some (e, r)"
  shows "length r \<le> length s"
proof (cases s)
  case Nil
  with assms show ?thesis
    by (simp add: lex_exp_def)
next
  case (Cons c cs)
  obtain b cs1 where sg: "lex_sign cs = (b, cs1)"
    by (cases "lex_sign cs")
  have "length (dropWhile is_digit cs1) \<le> length cs"
    using length_dropWhile_le [of is_digit cs1] lex_sign_length [OF sg] by linarith
  with assms Cons sg show ?thesis
    by (auto simp: lex_exp_def Let_def split: if_splits)
qed

lemma lex_number_length:
  assumes "lex_number s = Some (x, r)"
  shows "length r < length s"
proof -
  obtain neg s1 where s1: "(case s of [] \<Rightarrow> (False, s)
      | c # cs \<Rightarrow> if c = 0x2D then (True, cs) else (False, s)) = (neg, s1)"
    by (cases "case s of [] \<Rightarrow> (False, s) | c # cs \<Rightarrow> if c = 0x2D then (True, cs) else (False, s)")
  have l1: "length s1 \<le> length s"
    using s1 by (cases s) (auto split: if_splits)
  from assms s1 have ds: "takeWhile is_digit s1 \<noteq> []"
    by (auto simp: lex_number_def Let_def split: if_splits)
  from assms s1 ds obtain fs s3 where fr: "lex_frac (dropWhile is_digit s1) = Some (fs, s3)"
    by (auto simp: lex_number_def Let_def split: if_splits option.splits)
  from assms s1 ds fr obtain e where ex: "lex_exp s3 = Some (e, r)"
    by (auto simp: lex_number_def Let_def split: if_splits option.splits)
  have "length (takeWhile is_digit s1) + length (dropWhile is_digit s1) = length s1"
    by (metis length_append takeWhile_dropWhile_id)
  moreover have "0 < length (takeWhile is_digit s1)"
    using ds by simp
  ultimately have "length (dropWhile is_digit s1) < length s1"
    by linarith
  with lex_frac_length [OF fr] lex_exp_length [OF ex] l1 show ?thesis
    by linarith
qed

text \<open>
  The tokens of a JSON text; \<open>None\<close> is a syntax error. White space is tab, line feed,
  carriage return and space.
\<close>

function tokenize :: "jsstring \<Rightarrow> token list option" where
  "tokenize [] = Some []"
| "tokenize (c # cs) =
     (if c = 0x09 \<or> c = 0x0A \<or> c = 0x0D \<or> c = 0x20 then tokenize cs
      else if c = 0x7B then map_option (Cons TLBrace) (tokenize cs)
      else if c = 0x7D then map_option (Cons TRBrace) (tokenize cs)
      else if c = 0x5B then map_option (Cons TLBracket) (tokenize cs)
      else if c = 0x5D then map_option (Cons TRBracket) (tokenize cs)
      else if c = 0x3A then map_option (Cons TColon) (tokenize cs)
      else if c = 0x2C then map_option (Cons TComma) (tokenize cs)
      else if c = 0x22 then
        (case lex_string cs of
           None \<Rightarrow> None
         | Some (s, r) \<Rightarrow> map_option (Cons (TString s)) (tokenize r))
      else if c = 0x2D \<or> is_digit c then
        (case lex_number (c # cs) of
           None \<Rightarrow> None
         | Some ((neg, m, e), r) \<Rightarrow> map_option (Cons (TNumber neg m e)) (tokenize r))
      else if take 4 (c # cs) = ascii ''true'' then map_option (Cons TTrue) (tokenize (drop 3 cs))
      else if take 5 (c # cs) = ascii ''false'' then map_option (Cons TFalse) (tokenize (drop 4 cs))
      else if take 4 (c # cs) = ascii ''null'' then map_option (Cons TNull) (tokenize (drop 3 cs))
      else None)"
  by pat_completeness auto
termination
  by (relation "measure length") (auto dest: lex_string_length lex_number_length)

subsection \<open>JSON.parse: the syntactic grammar\<close>

text \<open>
  The values under construction: an array with the elements read so far, an object with
  the properties read so far and the name whose value is being read.
\<close>

datatype frame = InArray "json list" | InObject "(jsstring \<times> json) list" jsstring

text \<open>What the grammar allows next.\<close>

datatype expect =
    Value
  | ValueOrEnd
  | NameOrEnd "(jsstring \<times> json) list"
  | Name "(jsstring \<times> json) list"
  | Colon "(jsstring \<times> json) list" jsstring
  | Done json

text \<open>Defining a property: a repeated name keeps its place and takes the new value.\<close>

fun put_property :: "jsstring \<Rightarrow> json \<Rightarrow> (jsstring \<times> json) list \<Rightarrow> (jsstring \<times> json) list" where
  "put_property k v [] = [(k, v)]"
| "put_property k v (p # ps) = (if fst p = k then (k, v) # ps else p # put_property k v ps)"

text \<open>A value that starts and ends with this token.\<close>

fun scalar :: "token \<Rightarrow> json option" where
  "scalar (TString s) = Some (JString s)"
| "scalar (TNumber neg m e) = Some (JNumber neg m e)"
| "scalar TTrue = Some (JBool True)"
| "scalar TFalse = Some (JBool False)"
| "scalar TNull = Some JNull"
| "scalar _ = None"

text \<open>
  One token: the new expectation and stack, or \<open>None\<close> for a syntax error. After a
  complete value, the innermost unfinished array or object says what may follow.
\<close>

definition start_value :: "frame list \<Rightarrow> token \<Rightarrow> (expect \<times> frame list) option" where
  "start_value st t =
     (case t of
        TLBracket \<Rightarrow> Some (ValueOrEnd, InArray [] # st)
      | TLBrace \<Rightarrow> Some (NameOrEnd [], st)
      | _ \<Rightarrow> (case scalar t of None \<Rightarrow> None | Some v \<Rightarrow> Some (Done v, st)))"

definition parse_step :: "expect \<times> frame list \<Rightarrow> token \<Rightarrow> (expect \<times> frame list) option" where
  "parse_step c t =
     (case c of
        (Value, st) \<Rightarrow> start_value st t
      | (ValueOrEnd, st) \<Rightarrow>
          (case t of
             TRBracket \<Rightarrow>
               (case st of
                  InArray vs # st' \<Rightarrow> Some (Done (JArray vs), st')
                | _ \<Rightarrow> None)
           | _ \<Rightarrow> start_value st t)
      | (NameOrEnd ps, st) \<Rightarrow>
          (case t of
             TRBrace \<Rightarrow> Some (Done (JObject ps), st)
           | TString k \<Rightarrow> Some (Colon ps k, st)
           | _ \<Rightarrow> None)
      | (Name ps, st) \<Rightarrow>
          (case t of
             TString k \<Rightarrow> Some (Colon ps k, st)
           | _ \<Rightarrow> None)
      | (Colon ps k, st) \<Rightarrow>
          (case t of
             TColon \<Rightarrow> Some (Value, InObject ps k # st)
           | _ \<Rightarrow> None)
      | (Done v, st) \<Rightarrow>
          (case st of
             [] \<Rightarrow> None
           | InArray vs # st' \<Rightarrow>
               (case t of
                  TComma \<Rightarrow> Some (Value, InArray (vs @ [v]) # st')
                | TRBracket \<Rightarrow> Some (Done (JArray (vs @ [v])), st')
                | _ \<Rightarrow> None)
           | InObject ps k # st' \<Rightarrow>
               (case t of
                  TComma \<Rightarrow> Some (Name (put_property k v ps), st')
                | TRBrace \<Rightarrow> Some (Done (JObject (put_property k v ps)), st')
                | _ \<Rightarrow> None)))"

fun parse_tokens :: "expect \<times> frame list \<Rightarrow> token list \<Rightarrow> json option" where
  "parse_tokens c [] = (case c of (Done v, []) \<Rightarrow> Some v | _ \<Rightarrow> None)"
| "parse_tokens c (t # ts) =
     (case parse_step c t of None \<Rightarrow> None | Some c' \<Rightarrow> parse_tokens c' ts)"

text \<open>\<^verbatim>\<open>JSON.parse(text)\<close>: the value, or a thrown SyntaxError.\<close>

definition JSON_parse :: "jsstring \<Rightarrow> json completion" where
  "JSON_parse text =
     (case tokenize text of
        None \<Rightarrow> Throws
      | Some ts \<Rightarrow>
          (case parse_tokens (Value, []) ts of
             None \<Rightarrow> Throws
           | Some v \<Rightarrow> Returns v))"

section \<open>App.tsx: the codec\<close>

text \<open>
  \<^verbatim>\<open>const data = JSON.stringify({ html, css, js });
  return LZString.compressToEncodedURIComponent(data);\<close>
\<close>

definition encodeCode :: "jsstring \<Rightarrow> jsstring \<Rightarrow> jsstring \<Rightarrow> jsstring" where
  "encodeCode html css js =
     (let json_text = JSON_stringify [(ascii ''html'', html), (ascii ''css'', css), (ascii ''js'', js)]
      in compressToEncodedURIComponent json_text)"

text \<open>
  \<^verbatim>\<open>try { const data = LZString.decompressFromEncodedURIComponent(encoded);
  if (!data) return null; return JSON.parse(data); } catch { return null; }\<close>
  The result is whatever value \<^verbatim>\<open>JSON.parse\<close> returns (the declared return type is
  not checked at run time); \<^verbatim>\<open>null\<close> is \<open>JNull\<close>.
\<close>

definition decodeCode :: "jsstring \<Rightarrow> json" where
  "decodeCode encoded =
     (case decompressFromEncodedURIComponent encoded of
        Throws \<Rightarrow> JNull
      | Returns None \<Rightarrow> JNull
      | Returns (Some json_text) \<Rightarrow>
          if json_text = [] then JNull
          else (case JSON_parse json_text of Throws \<Rightarrow> JNull | Returns v \<Rightarrow> v))"

text \<open>
  The declared result type \<^verbatim>\<open>{ html: string; css: string; js: string }\<close>: an object
  whose three properties of these names are strings.
\<close>

definition has_string :: "(jsstring \<times> json) list \<Rightarrow> jsstring \<Rightarrow> bool" where
  "has_string ps k = (case map_of ps k of Some (JString s) \<Rightarrow> True | _ \<Rightarrow> False)"

definition is_Document :: "json \<Rightarrow> bool" where
  "is_Document v =
     (case v of
        JObject ps \<Rightarrow>
          has_string ps (ascii ''html'') \<and> has_string ps (ascii ''css'') \<and>
          has_string ps (ascii ''js'')
      | _ \<Rightarrow> False)"

text \<open>The Document that holds three given strings.\<close>

definition Document :: "jsstring \<Rightarrow> jsstring \<Rightarrow> jsstring \<Rightarrow> json" where
  "Document html css js =
     JObject [(ascii ''html'', JString html), (ascii ''css'', JString css),
              (ascii ''js'', JString js)]"

section \<open>App.tsx: links and the loader\<close>

text \<open>
  \<^verbatim>\<open>generateLink(viewOnly)\<close> for editor buffers \<open>html\<close>, \<open>css\<close>, \<open>js\<close>: the link is
  \<^verbatim>\<open>origin + pathname + prefix + encoded\<close> with prefix \<^verbatim>\<open>"#view/"\<close> or \<^verbatim>\<open>"#"\<close>.
\<close>

definition generateLink ::
  "jsstring \<Rightarrow> jsstring \<Rightarrow> jsstring \<Rightarrow> jsstring \<Rightarrow> jsstring \<Rightarrow> bool \<Rightarrow> jsstring" where
  "generateLink origin pathname html css js viewOnly =
     (let encoded = encodeCode html css js;
          prefix = (if viewOnly then ascii ''#view/'' else ascii ''#'')
      in origin @ pathname @ prefix @ encoded)"

text \<open>
  \<^verbatim>\<open>window.location.hash\<close> of the link, as the URL parser of the browser computes it
  (WHATWG URL): the leading and trailing C0 controls and spaces of the input are removed,
  then every tab and newline; the fragment is what follows the first \<open>#\<close>, each of its
  code points encoded in UTF-8 and every byte of the fragment percent-encode set (C0
  controls, space, \<open>"\<close>, \<open><\<close>, \<open>>\<close>, \<open>`\<close> and everything above \<open>~\<close>) written as \<open>%\<close> and two
  uppercase hexadecimal digits. A lone surrogate is read as U+FFFD. The getter returns the
  empty string for an empty or missing fragment, and \<open>#\<close> followed by the fragment
  otherwise.
\<close>

definition C0_control_or_space :: "16 word \<Rightarrow> bool" where
  "C0_control_or_space u \<longleftrightarrow> u \<le> 0x20"

definition ASCII_tab_or_newline :: "16 word \<Rightarrow> bool" where
  "ASCII_tab_or_newline u \<longleftrightarrow> u = 0x09 \<or> u = 0x0A \<or> u = 0x0D"

definition utf8_encode :: "nat \<Rightarrow> nat list" where
  "utf8_encode cp =
     (if cp < 0x80 then [cp]
      else if cp < 0x800 then [0xC0 + cp div 0x40, 0x80 + cp mod 0x40]
      else if cp < 0x10000
      then [0xE0 + cp div 0x1000, 0x80 + cp div 0x40 mod 0x40, 0x80 + cp mod 0x40]
      else [0xF0 + cp div 0x40000, 0x80 + cp div 0x1000 mod 0x40,
            0x80 + cp div 0x40 mod 0x40, 0x80 + cp mod 0x40])"

definition in_fragment_percent_encode_set :: "nat \<Rightarrow> bool" where
  "in_fragment_percent_encode_set b \<longleftrightarrow>
     b \<le> 0x20 \<or> 0x7E < b \<or> b = 0x22 \<or> b = 0x3C \<or> b = 0x3E \<or> b = 0x60"

definition upper_hex_digit :: "nat \<Rightarrow> 16 word" where
  "upper_hex_digit n = (if n < 10 then of_nat (48 + n) else of_nat (55 + n))"

definition percent_encode_byte :: "nat \<Rightarrow> jsstring" where
  "percent_encode_byte b =
     (if in_fragment_percent_encode_set b
      then [0x25, upper_hex_digit (b div 16), upper_hex_digit (b mod 16)]
      else [of_nat b])"

definition utf8_percent_encode :: "nat \<Rightarrow> jsstring" where
  "utf8_percent_encode cp = concat (map percent_encode_byte (utf8_encode cp))"

fun percent_encode_fragment :: "jsstring \<Rightarrow> jsstring" where
  "percent_encode_fragment [] = []"
| "percent_encode_fragment [u] =
     utf8_percent_encode
       (if is_leading_surrogate u \<or> is_trailing_surrogate u then 0xFFFD else unat u)"
| "percent_encode_fragment (u # v # us) =
     (if is_leading_surrogate u \<and> is_trailing_surrogate v
      then utf8_percent_encode (0x10000 + (unat u - 0xD800) * 0x400 + (unat v - 0xDC00)) @
           percent_encode_fragment us
      else utf8_percent_encode
             (if is_leading_surrogate u \<or> is_trailing_surrogate u then 0xFFFD else unat u) @
           percent_encode_fragment (v # us))"

definition location_hash :: "jsstring \<Rightarrow> jsstring" where
  "location_hash url =
     (let trimmed = rev (dropWhile C0_control_or_space
                      (rev (dropWhile C0_control_or_space url)));
          input = filter (\<lambda>u. \<not> ASCII_tab_or_newline u) trimmed;
          fragment = percent_encode_fragment (drop 1 (dropWhile (\<lambda>u. u \<noteq> 0x23) input))
      in if fragment = [] then [] else 0x23 # fragment)"

definition startsWith :: "jsstring \<Rightarrow> jsstring \<Rightarrow> bool" where
  "startsWith s p \<longleftrightarrow> take (length p) s = p"

text \<open>
  \<^verbatim>\<open>if (decoded)\<close>: \<^verbatim>\<open>null\<close>, \<^verbatim>\<open>false\<close>, a zero and the empty string are falsy. A
  decimal \<open>m * 10 ^ e\<close> is a zero as a double when it is at most \<open>2 ^ -1075\<close>, half the
  least positive double.
\<close>

definition number_is_zero :: "nat \<Rightarrow> int \<Rightarrow> bool" where
  "number_is_zero m e \<longleftrightarrow> (if 0 \<le> e then m = 0 else m * 2 ^ 1075 \<le> 10 ^ nat (- e))"

fun ToBoolean :: "json \<Rightarrow> bool" where
  "ToBoolean JNull = False"
| "ToBoolean (JBool b) = b"
| "ToBoolean (JNumber neg m e) = (\<not> number_is_zero m e)"
| "ToBoolean (JString s) = (s \<noteq> [])"
| "ToBoolean (JArray vs) = True"
| "ToBoolean (JObject ps) = True"

text \<open>
  \<^verbatim>\<open>decoded.html\<close>, \<^verbatim>\<open>decoded.css\<close>, \<^verbatim>\<open>decoded.js\<close>: an own property of an object;
  \<^verbatim>\<open>undefined\<close> (\<open>None\<close>) on any other value, no prototype defining these names.
\<close>

fun get_property :: "json \<Rightarrow> jsstring \<Rightarrow> json option" where
  "get_property (JObject ps) k = map_of ps k"
| "get_property v k = None"

datatype view_mode = Editor | Preview | Both

text \<open>
  The React state that the loader writes. The setters store whatever they are given, so
  a buffer holds a value or \<^verbatim>\<open>undefined\<close>.
\<close>

record app_state =
  state_html :: "json option"
  state_css :: "json option"
  state_js :: "json option"
  viewMode :: view_mode

text \<open>
  The effect run on mount: \<^verbatim>\<open>const hash = window.location.hash.slice(1); if (hash) {
  const isViewOnly = hash.startsWith("view/"); const encoded = isViewOnly ? hash.slice(5)
  : hash; const decoded = decodeCode(encoded); if (decoded) { setHtml(decoded.html);
  setCss(decoded.css); setJs(decoded.js); if (isViewOnly) setViewMode("preview"); } }\<close>
  The two lines that read the mode flag and the token are \<open>split_hash\<close>.
\<close>

definition split_hash :: "jsstring \<Rightarrow> bool \<times> jsstring" where
  "split_hash hash =
     (let isViewOnly = startsWith hash (ascii ''view/'');
          encoded = (if isViewOnly then drop 5 hash else hash)
      in (isViewOnly, encoded))"

definition load_from_hash :: "jsstring \<Rightarrow> app_state \<Rightarrow> app_state" where
  "load_from_hash window_location_hash st =
     (let hash = drop 1 window_location_hash
      in if hash \<noteq> [] then
           (let (isViewOnly, encoded) = split_hash hash;
                decoded = decodeCode encoded
            in if ToBoolean decoded then
                 (let st1 = st\<lparr>state_html := get_property decoded (ascii ''html''),
                                state_css := get_property decoded (ascii ''css''),
                                state_js := get_property decoded (ascii ''js'')\<rparr>
                  in if isViewOnly then st1\<lparr>viewMode := Preview\<rparr> else st1)
               else st)
         else st)"

section \<open>JSON.parse inverts JSON.stringify\<close>

lemma unat_of_nat16: "n < 65536 \<Longrightarrow> unat (of_nat n :: 16 word) = n"
  by (simp add: unat_of_nat)

lemma unat_hex_digit: "n < 16 \<Longrightarrow> unat (hex_digit n) = (if n < 10 then 48 + n else 87 + n)"
  unfolding hex_digit_def
  using unat_of_nat16 [of "48 + n"] unat_of_nat16 [of "87 + n"] by simp

lemma hex_value_hex_digit: "n < 16 \<Longrightarrow> hex_value (hex_digit n) = Some n"
  by (simp add: hex_value_def unat_hex_digit)

lemma radix16:
  "a = 16 * b + r1 \<Longrightarrow> b = 16 * c + r2 \<Longrightarrow> c = 16 * d + r3 \<Longrightarrow>
   ((d * 16 + r3) * 16 + r2) * 16 + r1 = (a::nat)"
  by simp

lemma hex_recompose:
  "((n div 4096 * 16 + n div 256 mod 16) * 16 + n div 16 mod 16) * 16 + n mod 16 = (n::nat)"
proof -
  have a: "n div 16 div 16 = n div 256" and b: "n div 256 div 16 = n div 4096"
    by (simp_all add: div_mult2_eq [symmetric])
  have c: "n = 16 * (n div 16) + n mod 16"
    by simp
  have d: "n div 16 = 16 * (n div 256) + n div 16 mod 16"
    unfolding a [symmetric] by simp
  have e: "n div 256 = 16 * (n div 4096) + n div 256 mod 16"
    unfolding b [symmetric] by simp
  show ?thesis
    by (rule radix16 [OF c d e])
qed

lemma hex4_UnicodeEscape:
  "hex4 (hex_digit (unat u div 4096)) (hex_digit (unat u div 256 mod 16))
        (hex_digit (unat u div 16 mod 16)) (hex_digit (unat u mod 16)) = Some (u :: 16 word)"
proof -
  let ?n = "unat u"
  have lt: "?n < 65536"
    using unsigned_less [of u] by simp
  then have a: "?n div 4096 < 16"
    by simp
  have m: "?n div 256 mod 16 < 16" "?n div 16 mod 16 < 16" "?n mod 16 < 16"
    by simp_all
  have "of_nat ?n = u"
    by simp
  then have "of_nat (((?n div 4096 * 16 + ?n div 256 mod 16) * 16 + ?n div 16 mod 16) * 16
      + ?n mod 16) = u"
    by (simp only: hex_recompose)
  then show ?thesis
    by (simp only: hex4_def hex_value_hex_digit [OF a] hex_value_hex_digit [OF m(1)]
        hex_value_hex_digit [OF m(2)] hex_value_hex_digit [OF m(3)] option.case prod.case)
qed

lemma lex_string_UnicodeEscape:
  "lex_string (UnicodeEscape u @ r) =
     (case lex_string r of None \<Rightarrow> None | Some (s, r') \<Rightarrow> Some (u # s, r'))"
  by (simp add: UnicodeEscape_def Let_def hex4_UnicodeEscape)


lemma lex_string_quote_unit:
  "lex_string (quote_unit u @ r) =
     (case lex_string r of None \<Rightarrow> None | Some (s, r') \<Rightarrow> Some (u # s, r'))"
proof (cases "u \<in> {0x08, 0x09, 0x0A, 0x0C, 0x0D, 0x22, 0x5C}")
  case True
  then show ?thesis
    by (auto simp: quote_unit_def unescape_def split: option.splits)
next
  case False
  then have q: "quote_unit u =
      (if u < 0x20 \<or> is_leading_surrogate u \<or> is_trailing_surrogate u
       then UnicodeEscape u else [u])"
    by (simp add: quote_unit_def)
  show ?thesis
  proof (cases "u < 0x20 \<or> is_leading_surrogate u \<or> is_trailing_surrogate u")
    case True
    then show ?thesis
      by (simp only: q if_True lex_string_UnicodeEscape)
  next
    case no: False
    with False show ?thesis
      by (simp add: q)
  qed
qed

lemma lex_string_quote_units:
  "lex_string (quote_units s @ 0x22 # r) = Some (s, r)"
proof (induction s rule: quote_units.induct)
  case 1
  show ?case by simp
next
  case (2 u)
  show ?case
    by (simp add: lex_string_quote_unit del: lex_string.simps) simp
next
  case (3 u v us)
  show ?case
  proof (cases "is_leading_surrogate u \<and> is_trailing_surrogate v")
    case True
    have b: "(0x20::16 word) \<le> 0xD800" "(0x20::16 word) \<le> 0xDC00"
      by simp_all
    from True have "0xD800 \<le> u" "0xDC00 \<le> v"
      by (simp_all add: is_leading_surrogate_def is_trailing_surrogate_def)
    with b have "0x20 \<le> u" "0x20 \<le> v"
      by (blast intro: order_trans)+
    moreover from True have "u \<noteq> 0x22" "u \<noteq> 0x5C" "v \<noteq> 0x22" "v \<noteq> 0x5C"
      by (auto simp: is_leading_surrogate_def is_trailing_surrogate_def)
    ultimately have "u \<noteq> 0x22" "u \<noteq> 0x5C" "\<not> u < 0x20" "v \<noteq> 0x22" "v \<noteq> 0x5C" "\<not> v < 0x20"
      by (simp_all add: not_less)
    with True 3 show ?thesis
      by simp
  next
    case False
    then have "quote_units (u # v # us) = quote_unit u @ quote_units (v # us)"
      by auto
    with False 3 show ?thesis
      by (simp add: lex_string_quote_unit del: lex_string.simps quote_units.simps)
  qed
qed

lemma lex_string_QuoteJSONString:
  "lex_string (tl (QuoteJSONString s) @ r) = Some (s, r)"
  by (simp add: QuoteJSONString_def lex_string_quote_units del: lex_string.simps)


lemma tokenize_QuoteJSONString:
  "tokenize (QuoteJSONString s @ r) = map_option (Cons (TString s)) (tokenize r)"
  by (simp add: QuoteJSONString_def lex_string_quote_units del: lex_string.simps)

lemma tokenize_stringify3:
  "tokenize (JSON_stringify [(k1, v1), (k2, v2), (k3, v3)]) =
     Some [TLBrace, TString k1, TColon, TString v1, TComma,
           TString k2, TColon, TString v2, TComma,
           TString k3, TColon, TString v3, TRBrace]"
proof -
  have "JSON_stringify [(k1, v1), (k2, v2), (k3, v3)] =
      0x7B # QuoteJSONString k1 @ 0x3A # QuoteJSONString v1 @ 0x2C #
      QuoteJSONString k2 @ 0x3A # QuoteJSONString v2 @ 0x2C #
      QuoteJSONString k3 @ 0x3A # QuoteJSONString v3 @ [0x7D]"
    by (simp add: JSON_stringify_def)
  then show ?thesis
    by (simp add: tokenize_QuoteJSONString)
qed

lemma parse_Document_tokens:
  assumes "k1 \<noteq> k2" "k1 \<noteq> k3" "k2 \<noteq> k3"
  shows "parse_tokens (Value, [])
     [TLBrace, TString k1, TColon, TString v1, TComma,
      TString k2, TColon, TString v2, TComma,
      TString k3, TColon, TString v3, TRBrace] =
     Some (JObject [(k1, JString v1), (k2, JString v2), (k3, JString v3)])"
  using assms by (simp add: parse_step_def start_value_def)

lemma ascii_names_distinct:
  "ascii ''html'' \<noteq> ascii ''css''" "ascii ''html'' \<noteq> ascii ''js''" "ascii ''css'' \<noteq> ascii ''js''"
  by (simp_all add: ascii_def)

lemma JSON_parse_stringify_Document:
  "JSON_parse (JSON_stringify [(ascii ''html'', html), (ascii ''css'', css), (ascii ''js'', js)])
     = Returns (Document html css js)"
  by (simp add: JSON_parse_def tokenize_stringify3 parse_Document_tokens ascii_names_distinct
      Document_def del: parse_tokens.simps)

section \<open>The characters of a compressed token\<close>

lemma push_or_bit: "b < 2 \<Longrightarrow> push_bit 1 n OR b = 2 * n + (b::nat)"
proof -
  assume "b < 2"
  then consider "b = 0" | "b = 1"
    by linarith
  then show ?thesis
  proof cases
    case 1
    then show ?thesis by (simp add: push_bit_eq_mult)
  next
    case 2
    have "push_bit 1 n OR (1::nat) = push_bit 1 n + of_bool (even (push_bit 1 n))"
      by (rule or_one_eq)
    then show ?thesis
      unfolding 2 by (simp add: push_bit_eq_mult)
  qed
qed

lemma and_one_lt2: "(v::nat) AND 1 < 2"
  by (simp add: and_one_eq)

definition writer_ok :: "nat \<Rightarrow> (nat \<Rightarrow> jsstring) \<Rightarrow> compress_context \<Rightarrow> bool" where
  "writer_ok bpc g s \<longleftrightarrow>
     context_data_position s < bpc \<and>
     context_data_val s < 2 ^ context_data_position s \<and>
     set (context_data s) \<subseteq> g ` {..<2 ^ bpc}"

lemma write_bit_ok:
  assumes "writer_ok bpc g s" "b < 2"
  shows "writer_ok bpc g (write_bit bpc g b s)"
proof -
  let ?v = "push_bit 1 (context_data_val s) OR b"
  have v: "?v = 2 * context_data_val s + b"
    using assms(2) by (rule push_or_bit)
  from assms have p: "context_data_position s < bpc"
    and l: "context_data_val s < 2 ^ context_data_position s"
    and d: "set (context_data s) \<subseteq> g ` {..<2 ^ bpc}"
    by (simp_all add: writer_ok_def)
  from l assms(2) have lt: "?v < 2 ^ Suc (context_data_position s)"
    unfolding v by simp
  show ?thesis
  proof (cases "context_data_position s = bpc - 1")
    case True
    with p have "Suc (context_data_position s) = bpc"
      by simp
    with lt have "?v < 2 ^ bpc"
      by simp
    with True p d show ?thesis
      by (simp add: writer_ok_def write_bit_def Let_def)
  next
    case False
    with p have "Suc (context_data_position s) < bpc"
      by simp
    with False lt d show ?thesis
      by (simp add: writer_ok_def write_bit_def Let_def)
  qed
qed

lemma write_value_ok:
  "writer_ok bpc g s \<Longrightarrow> writer_ok bpc g (write_value bpc g n v s)"
  by (induction n arbitrary: v s) (simp_all add: write_bit_ok and_one_lt2)

lemma enlarge_ok: "writer_ok bpc g (enlarge s) = writer_ok bpc g s"
  by (simp add: writer_ok_def enlarge_def Let_def)

definition writer :: "compress_context \<Rightarrow> jsstring list \<times> nat \<times> nat" where
  "writer s = (context_data s, context_data_val s, context_data_position s)"

lemma writer_ok_cong: "writer s = writer t \<Longrightarrow> writer_ok bpc g s = writer_ok bpc g t"
  by (simp add: writer_def writer_ok_def)

lemma writer_enlarge: "writer (enlarge s) = writer s"
  by (simp add: writer_def enlarge_def Let_def)

lemma writer_register_char: "writer (register_char s c) = writer s"
  by (simp add: writer_def register_char_def)

lemma writer_add_phrase: "writer (add_phrase s wc c) = writer s"
  by (simp add: writer_def add_phrase_def)

lemma output_w_ok: "writer_ok bpc g s \<Longrightarrow> writer_ok bpc g (output_w bpc g s)"
proof -
  assume ok: "writer_ok bpc g s"
  have upd: "writer_ok bpc g (t\<lparr>context_dictionaryToCreate := x\<rparr>) = writer_ok bpc g t" for t x
    by (simp add: writer_ok_def)
  show ?thesis
    unfolding output_w_def Let_def enlarge_ok
    by (simp add: upd enlarge_ok write_value_ok ok split: list.split)
qed

lemma compress_char_ok:
  "writer_ok bpc g s \<Longrightarrow> writer_ok bpc g (compress_char bpc g s u)"
proof -
  assume ok: "writer_ok bpc g s"
  have ok1: "writer_ok bpc g (register_char s [u])"
    using ok writer_ok_cong [OF writer_register_char] by simp
  have updw: "writer_ok bpc g (t\<lparr>context_w := z\<rparr>) = writer_ok bpc g t" for t z
    by (simp add: writer_ok_def)
  have "writer_ok bpc g (add_phrase (output_w bpc g (register_char s [u])) wc c)" for wc c
    using output_w_ok [OF ok1] writer_ok_cong [OF writer_add_phrase] by simp
  with ok1 show ?thesis
    by (simp add: compress_char_def Let_def updw)
qed

lemma foldl_compress_char_ok:
  "writer_ok bpc g s \<Longrightarrow> writer_ok bpc g (foldl (compress_char bpc g) s us)"
  by (induction us arbitrary: s) (simp_all add: compress_char_ok)

lemma compress_init_ok: "0 < bpc \<Longrightarrow> writer_ok bpc g compress_init"
  by (simp add: writer_ok_def compress_init_def)

lemma LZ_compress_alphabet:
  assumes "0 < bpc"
  shows "set (LZ_compress us bpc g) \<subseteq> (\<Union>i<2 ^ bpc. set (g i))"
proof -
  let ?s1 = "foldl (compress_char bpc g) compress_init us"
  let ?s2 = "if context_w ?s1 \<noteq> [] then output_w bpc g ?s1 else ?s1"
  let ?s3 = "write_value bpc g (context_numBits ?s2) 2 ?s2"
  let ?s4 = "flush bpc g ?s3"
  have "writer_ok bpc g ?s1"
    by (rule foldl_compress_char_ok [OF compress_init_ok [OF assms]])
  then have "writer_ok bpc g ?s2"
    by (simp add: output_w_ok)
  then have "writer_ok bpc g ?s3"
    by (rule write_value_ok)
  then have "writer_ok bpc g ?s4"
    unfolding flush_def by (rule write_value_ok)
  then have "set (context_data ?s4) \<subseteq> g ` {..<2 ^ bpc}"
    by (simp add: writer_ok_def)
  then have "set (concat (context_data ?s4)) \<subseteq> (\<Union>i<2 ^ bpc. set (g i))"
    by auto
  then show ?thesis
    by (simp add: LZ_compress_def Let_def)
qed

lemma take64_keyStrUriSafe:
  "take 64 keyStrUriSafe =
     ascii ''ABCDEFGHIJKLMNOPQRSTUVWXYZabcdefghijklmnopqrstuvwxyz0123456789+-''"
  by (simp add: keyStrUriSafe_def ascii_def)

lemma length_keyStrUriSafe: "length keyStrUriSafe = 65"
  by (simp add: keyStrUriSafe_def ascii_def)

lemma charAt_keyStrUriSafe:
  assumes "i < 64"
  shows "set (charAt keyStrUriSafe i) \<subseteq> set (take 64 keyStrUriSafe)"
proof -
  from assms have "keyStrUriSafe ! i = take 64 keyStrUriSafe ! i"
    by simp
  moreover from assms have "take 64 keyStrUriSafe ! i \<in> set (take 64 keyStrUriSafe)"
    by (intro nth_mem) (simp add: length_keyStrUriSafe)
  ultimately show ?thesis
    using assms by (simp add: charAt_def length_keyStrUriSafe)
qed

lemma compressToEncodedURIComponent_alphabet:
  "set (compressToEncodedURIComponent s) \<subseteq> set (take 64 keyStrUriSafe)"
proof -
  have "set (LZ_compress s 6 (charAt keyStrUriSafe))
      \<subseteq> (\<Union>i<2 ^ 6. set (charAt keyStrUriSafe i))"
    by (rule LZ_compress_alphabet) simp
  also have "\<dots> \<subseteq> set (take 64 keyStrUriSafe)"
    using charAt_keyStrUriSafe by auto
  finally show ?thesis
    by (simp add: compressToEncodedURIComponent_def)
qed

lemma slash_not_in_token: "0x2F \<notin> set (compressToEncodedURIComponent s)"
proof -
  have "0x2F \<notin> set (take 64 keyStrUriSafe)"
    unfolding take64_keyStrUriSafe by (simp add: ascii_def)
  with compressToEncodedURIComponent_alphabet [of s] show ?thesis
    by blast
qed

lemma length_view: "length (ascii ''view/'') = 5"
  by (simp add: ascii_def)

lemma token_not_view:
  "\<not> startsWith (compressToEncodedURIComponent s) (ascii ''view/'')"
proof
  assume "startsWith (compressToEncodedURIComponent s) (ascii ''view/'')"
  then have "take 5 (compressToEncodedURIComponent s) = ascii ''view/''"
    unfolding startsWith_def length_view .
  then have "0x2F \<in> set (take 5 (compressToEncodedURIComponent s))"
    by (simp add: ascii_def)
  then have "0x2F \<in> set (compressToEncodedURIComponent s)"
    by (rule in_set_takeD)
  with slash_not_in_token show False
    by blast
qed

lemma split_hash_token:
  "split_hash (compressToEncodedURIComponent s) = (False, compressToEncodedURIComponent s)"
  by (simp add: split_hash_def token_not_view)

lemma split_hash_view: "split_hash (ascii ''view/'' @ t) = (True, t)"
  by (simp add: split_hash_def startsWith_def length_view)

text \<open>
  C2. Every character of a token produced by \<open>encodeCode\<close> is a letter, a digit,
  \<open>+\<close> or \<open>-\<close>: at most two punctuation characters, each of which is allowed in a URL
  fragment as it stands (RFC 3986 lists \<open>+\<close> among the sub-delimiters and \<open>-\<close> among the
  unreserved characters), so no token needs percent-encoding after \<open>#\<close>.
\<close>

theorem encodeCode_alphabet:
  "set (encodeCode html css js) \<subseteq>
     set (ascii ''ABCDEFGHIJKLMNOPQRSTUVWXYZabcdefghijklmnopqrstuvwxyz0123456789+-'')"
  using compressToEncodedURIComponent_alphabet
  by (simp add: encodeCode_def take64_keyStrUriSafe)

section \<open>The bits behind a token\<close>

definition vb :: "nat \<Rightarrow> nat \<Rightarrow> bool list" where
  "vb n v = map (bit v) [0..<n]"

definition char_bits :: "jsstring \<Rightarrow> bool list" where
  "char_bits ch =
     (case getBaseValue keyStrUriSafe ch of
        None \<Rightarrow> replicate 6 False
      | Some v \<Rightarrow> map (bit v) (rev [0..<6]))"

definition written :: "compress_context \<Rightarrow> bool list" where
  "written s =
     concat (map char_bits (context_data s)) @
     map (bit (context_data_val s)) (rev [0..<context_data_position s])"

lemma bits_shift_in:
  assumes "b < 2"
  shows "map (bit (2 * v + b)) (rev [0..<Suc n]) = map (bit v) (rev [0..<n]) @ [b = (1::nat)]"
proof -
  have s: "bit (2 * v + b) (Suc i) = bit v i" for i
    using assms by (simp add: bit_Suc)
  from assms consider "b = 0" | "b = 1"
    by linarith
  then have z: "bit (2 * v + b) 0 = (b = 1)"
    by cases (simp_all add: bit_0)
  have "[0..<Suc n] = 0 # map Suc [0..<n]"
    by (simp add: upt_conv_Cons map_Suc_upt del: upt_Suc)
  then have "map (bit (2 * v + b)) (rev [0..<Suc n]) =
      map (bit (2 * v + b)) (rev (map Suc [0..<n])) @ [bit (2 * v + b) 0]"
    by (simp del: upt_Suc)
  also have "map (bit (2 * v + b)) (rev (map Suc [0..<n])) = map (bit v) (rev [0..<n])"
    by (simp add: rev_map s comp_def del: upt_Suc)
  finally show ?thesis
    by (simp only: z)
qed

lemma distinct_keyStrUriSafe: "distinct keyStrUriSafe"
  by (simp add: keyStrUriSafe_def ascii_def)

lemma map_of_rev_zip_nth:
  assumes "distinct ks" "i < length ks" "inj f"
  shows "map_of (rev (zip (map f ks) [0..<length ks])) (f (ks ! i)) = Some i"
proof -
  have d: "distinct (map fst (rev (zip (map f ks) [0..<length ks])))"
    using assms(1,3) by (simp add: rev_map [symmetric] distinct_map inj_on_def inj_def)
  have "(f (ks ! i), i) \<in> set (rev (zip (map f ks) [0..<length ks]))"
    using assms(2) by (auto simp: in_set_zip intro!: exI [of _ i])
  with d show ?thesis
    by (rule map_of_is_SomeI)
qed

lemma getBaseValue_charAt:
  "v < 64 \<Longrightarrow> getBaseValue keyStrUriSafe (charAt keyStrUriSafe v) = Some v"
  unfolding getBaseValue_def charAt_def
  using map_of_rev_zip_nth [OF distinct_keyStrUriSafe, of v "\<lambda>u. [u]"]
  by (simp add: length_keyStrUriSafe inj_def)

lemma char_bits_charAt:
  "v < 64 \<Longrightarrow> char_bits (charAt keyStrUriSafe v) = map (bit v) (rev [0..<6])"
  by (simp add: char_bits_def getBaseValue_charAt)

lemma write_bit_written:
  assumes ok: "writer_ok 6 (charAt keyStrUriSafe) s" and b: "b < 2"
  shows "written (write_bit 6 (charAt keyStrUriSafe) b s) = written s @ [b = 1]"
proof -
  let ?v = "push_bit 1 (context_data_val s) OR b"
  have v: "?v = 2 * context_data_val s + b"
    using b by (rule push_or_bit)
  from ok have p: "context_data_position s < 6"
    and l: "context_data_val s < 2 ^ context_data_position s"
    by (simp_all add: writer_ok_def)
  show ?thesis
  proof (cases "context_data_position s = 5")
    case True
    with l b have "?v < 64"
      unfolding v by simp
    then have "char_bits (charAt keyStrUriSafe ?v) = map (bit ?v) (rev [0..<Suc 5])"
      by (simp add: char_bits_charAt eval_nat_numeral)
    also have "\<dots> = map (bit (context_data_val s)) (rev [0..<5]) @ [b = 1]"
      unfolding v using b by (rule bits_shift_in)
    finally show ?thesis
      using True by (simp add: written_def write_bit_def Let_def)
  next
    case False
    have "map (bit ?v) (rev [0..<Suc (context_data_position s)]) =
        map (bit (context_data_val s)) (rev [0..<context_data_position s]) @ [b = 1]"
      unfolding v using b by (rule bits_shift_in)
    with False show ?thesis
      by (simp add: written_def write_bit_def Let_def del: upt_Suc)
  qed
qed

lemma vb_Suc: "vb (Suc n) v = bit v 0 # vb n (drop_bit 1 v)"
proof -
  have "[0..<Suc n] = 0 # map Suc [0..<n]"
    by (simp add: upt_conv_Cons map_Suc_upt del: upt_Suc)
  then show ?thesis
    by (simp add: vb_def comp_def bit_Suc drop_bit_Suc del: upt_Suc)
qed

lemma and_one_is_bit: "((v::nat) AND 1 = 1) = bit v 0"
  by (simp add: and_one_eq bit_0 mod_2_eq_odd)

lemma write_value_written:
  "writer_ok 6 (charAt keyStrUriSafe) s \<Longrightarrow>
   written (write_value 6 (charAt keyStrUriSafe) n v s) = written s @ vb n v"
proof (induction n arbitrary: v s)
  case 0
  then show ?case by (simp add: vb_def)
next
  case (Suc n)
  have ok': "writer_ok 6 (charAt keyStrUriSafe) (write_bit 6 (charAt keyStrUriSafe) (v AND 1) s)"
    using Suc.prems and_one_lt2 by (rule write_bit_ok)
  have "written (write_value 6 (charAt keyStrUriSafe) (Suc n) v s) =
      written (write_bit 6 (charAt keyStrUriSafe) (v AND 1) s) @ vb n (drop_bit 1 v)"
    using Suc.IH [OF ok'] by simp
  also have "\<dots> = (written s @ [v AND 1 = 1]) @ vb n (drop_bit 1 v)"
    by (simp only: write_bit_written [OF Suc.prems and_one_lt2])
  also have "\<dots> = written s @ vb (Suc n) v"
    by (simp only: vb_Suc and_one_is_bit append_assoc append_Cons append_Nil)
  finally show ?case .
qed

definition stream :: "(nat \<Rightarrow> nat option) \<Rightarrow> nat \<Rightarrow> bool" where
  "stream gnv k = (case gnv (k div 6) of None \<Rightarrow> False | Some v \<Rightarrow> bit v (5 - k mod 6))"

definition at_offset :: "(nat \<Rightarrow> nat option) \<Rightarrow> nat \<Rightarrow> dstream \<Rightarrow> bool" where
  "at_offset gnv k d \<longleftrightarrow>
     index d = k div 6 + 1 \<and> position d = 2 ^ (5 - k mod 6) \<and> val d = gnv (k div 6)"

fun lsb_val :: "bool list \<Rightarrow> nat" where
  "lsb_val [] = 0"
| "lsb_val (b # bs) = of_bool b + 2 * lsb_val bs"

lemma read_bit_at:
  assumes "at_offset gnv k d"
  shows "fst (read_bit gnv 32 d) = of_bool (stream gnv k)"
    and "at_offset gnv (Suc k) (snd (read_bit gnv 32 d))"
proof -
  from assms have i: "index d = k div 6 + 1" and p: "position d = 2 ^ (5 - k mod 6)"
    and v: "val d = gnv (k div 6)"
    by (simp_all add: at_offset_def)
  have r: "(x AND (2::nat) ^ j > 0) = bit x j" for x j
    using and_exp_eq_0_iff_not_bit [of x j] by auto
  show "fst (read_bit gnv 32 d) = of_bool (stream gnv k)"
    using and_exp_eq_0_iff_not_bit [where ?'a = nat]
    by (simp add: read_bit_def Let_def stream_def v p r split: option.split)
  show "at_offset gnv (Suc k) (snd (read_bit gnv 32 d))"
  proof (cases "k mod 6 = 5")
    case True
    then have "Suc k mod 6 = 0" "Suc k div 6 = Suc (k div 6)"
      by (simp_all add: mod_Suc div_Suc)
    with True show ?thesis
      by (simp add: read_bit_def Let_def at_offset_def i p)
  next
    case False
    have "k mod 6 < 6"
      by simp
    with False have lt: "k mod 6 < 5"
      by linarith
    then have m: "Suc k mod 6 = Suc (k mod 6)" "Suc k div 6 = k div 6"
      by (simp_all add: mod_Suc div_Suc)
    from lt obtain j where j: "5 - k mod 6 = Suc j"
      by (cases "5 - k mod 6") simp_all
    then have j': "4 - k mod 6 = j"
      by simp
    show ?thesis
      by (simp add: read_bit_def Let_def at_offset_def i p v m j j' drop_bit_Suc)
  qed
qed

lemma read_bits_at:
  "at_offset gnv k d \<Longrightarrow>
   fst (read_bits gnv 32 n d) = lsb_val (map (stream gnv) [k..<k + n]) \<and>
   at_offset gnv (k + n) (snd (read_bits gnv 32 n d))"
proof (induction n arbitrary: k d)
  case 0
  then show ?case by simp
next
  case (Suc n)
  obtain b d1 where b: "read_bit gnv 32 d = (b, d1)"
    by (cases "read_bit gnv 32 d")
  obtain x d2 where x: "read_bits gnv 32 n d1 = (x, d2)"
    by (cases "read_bits gnv 32 n d1")
  from read_bit_at [OF Suc.prems] b have b1: "b = of_bool (stream gnv k)"
    and a1: "at_offset gnv (Suc k) d1"
    by simp_all
  from Suc.IH [OF a1] x have x1: "x = lsb_val (map (stream gnv) [Suc k..<Suc k + n])"
    and a2: "at_offset gnv (Suc k + n) d2"
    by simp_all
  have "[k..<k + Suc n] = k # [Suc k..<Suc k + n]"
    by (simp add: upt_conv_Cons del: upt_Suc)
  with b x b1 x1 a2 show ?case
    by (simp del: upt_Suc)
qed

lemma length_vb [simp]: "length (vb n v) = n"
  by (simp add: vb_def)

lemma lsb_val_vb: "lsb_val (vb n v) = take_bit n v"
proof (induction n arbitrary: v)
  case 0
  show ?case by (simp add: vb_def)
next
  case (Suc n)
  show ?case
    by (simp add: vb_Suc Suc.IH take_bit_Suc drop_bit_Suc bit_0 mod_2_eq_odd del: take_bit_of_nat)
qed

definition agree :: "(nat \<Rightarrow> nat option) \<Rightarrow> bool list \<Rightarrow> bool" where
  "agree gnv bs \<longleftrightarrow> (\<forall>i<length bs. stream gnv i = bs ! i)"

lemma agree_segment:
  assumes "agree gnv (A @ X @ B)"
  shows "map (stream gnv) [length A..<length A + length X] = X"
proof (rule nth_equalityI)
  show "length (map (stream gnv) [length A..<length A + length X]) = length X"
    by simp
next
  fix i
  assume "i < length (map (stream gnv) [length A..<length A + length X])"
  then have i: "i < length X"
    by simp
  then have "stream gnv (length A + i) = (A @ X @ B) ! (length A + i)"
    using assms by (simp add: agree_def)
  also have "\<dots> = X ! i"
    using i by (simp add: nth_append)
  finally show "map (stream gnv) [length A..<length A + length X] ! i = X ! i"
    using i by simp
qed

lemma read_field:
  assumes "agree gnv (A @ vb n v @ B)" and "v < 2 ^ n" and "at_offset gnv (length A) d"
  shows "fst (read_bits gnv 32 n d) = v"
    and "at_offset gnv (length A + n) (snd (read_bits gnv 32 n d))"
proof -
  have "map (stream gnv) [length A..<length A + n] = vb n v"
    using agree_segment [OF assms(1)] by simp
  with read_bits_at [OF assms(3), of n] assms(2)
  show "fst (read_bits gnv 32 n d) = v"
    and "at_offset gnv (length A + n) (snd (read_bits gnv 32 n d))"
    by (simp_all add: lsb_val_vb take_bit_nat_eq_self)
qed

section \<open>What the compressor writes for a phrase\<close>

definition logic ::
  "compress_context \<Rightarrow> (jsstring \<rightharpoonup> nat) \<times> jsstring set \<times> jsstring \<times> int \<times> nat \<times> nat" where
  "logic s = (context_dictionary s, context_dictionaryToCreate s, context_w s,
              context_enlargeIn s, context_dictSize s, context_numBits s)"

lemma logic_write_bit: "logic (write_bit bpc g b s) = logic s"
  by (simp add: logic_def write_bit_def Let_def)

lemma logic_write_value: "logic (write_value bpc g n v s) = logic s"
  by (induction n arbitrary: v s) (simp_all add: logic_write_bit)

lemma logic_fields:
  assumes "logic s = logic t"
  shows "context_dictionary s = context_dictionary t"
    and "context_dictionaryToCreate s = context_dictionaryToCreate t"
    and "context_w s = context_w t"
    and "context_enlargeIn s = context_enlargeIn t"
    and "context_dictSize s = context_dictSize t"
    and "context_numBits s = context_numBits t"
  using assms by (simp_all add: logic_def)

lemmas write_value_fields = logic_fields [OF logic_write_value]

definition tick :: "int \<times> nat \<Rightarrow> int \<times> nat" where
  "tick x = (case x of (e, nb) \<Rightarrow> if e - 1 = 0 then (2 ^ nb, nb + 1) else (e - 1, nb))"

lemma logic_enlarge:
  "logic (enlarge s) =
     (context_dictionary s, context_dictionaryToCreate s, context_w s,
      fst (tick (context_enlargeIn s, context_numBits s)), context_dictSize s,
      snd (tick (context_enlargeIn s, context_numBits s)))"
  by (simp add: logic_def enlarge_def tick_def Let_def)

definition code_of :: "compress_context \<Rightarrow> nat" where
  "code_of s = (case context_dictionary s (context_w s) of None \<Rightarrow> 0 | Some v \<Rightarrow> v)"

definition fresh :: "compress_context \<Rightarrow> bool" where
  "fresh s \<longleftrightarrow> context_w s \<in> context_dictionaryToCreate s"

definition out_bits :: "compress_context \<Rightarrow> bool list" where
  "out_bits s =
     (if fresh s
      then (case context_w s of
              [] \<Rightarrow> vb (context_numBits s) 1 @ vb 16 0
            | u # us \<Rightarrow>
                if unat u < 256 then vb (context_numBits s) 0 @ vb 8 (unat u)
                else vb (context_numBits s) 1 @ vb 16 (unat u))
      else vb (context_numBits s) (code_of s))"

definition ticks :: "compress_context \<Rightarrow> int \<times> nat" where
  "ticks s =
     (if fresh s then tick (tick (context_enlargeIn s, context_numBits s))
      else tick (context_enlargeIn s, context_numBits s))"

lemma logic_toCreate_update:
  "logic (s\<lparr>context_dictionaryToCreate := x\<rparr>) =
     (context_dictionary s, x, context_w s, context_enlargeIn s, context_dictSize s,
      context_numBits s)"
  by (simp add: logic_def)

lemma logic_output_w:
  "logic (output_w bpc g s) =
     (context_dictionary s, context_dictionaryToCreate s - {context_w s}, context_w s,
      fst (ticks s), context_dictSize s, snd (ticks s))"
proof (cases "fresh s")
  case True
  let ?s1 = "case context_w s of
      [] \<Rightarrow> write_value bpc g 16 0 (write_value bpc g (context_numBits s) 1 s)
    | u # us \<Rightarrow>
        if unat u < 256
        then write_value bpc g 8 (unat u) (write_value bpc g (context_numBits s) 0 s)
        else write_value bpc g 16 (unat u) (write_value bpc g (context_numBits s) 1 s)"
  have l1: "logic ?s1 = logic s"
    by (simp add: logic_write_value split: list.split)
  have o: "output_w bpc g s =
      enlarge ((enlarge ?s1)\<lparr>context_dictionaryToCreate :=
        context_dictionaryToCreate (enlarge ?s1) - {context_w s}\<rparr>)"
    using True by (simp add: output_w_def fresh_def Let_def)
  have l2: "logic (enlarge ?s1) =
      (context_dictionary s, context_dictionaryToCreate s, context_w s,
       fst (tick (context_enlargeIn s, context_numBits s)), context_dictSize s,
       snd (tick (context_enlargeIn s, context_numBits s)))"
    unfolding logic_enlarge using l1 by (simp add: logic_def)
  show ?thesis
    unfolding o logic_enlarge
    using l2 True by (simp add: logic_def ticks_def)
next
  case False
  then have o: "output_w bpc g s =
      enlarge (write_value bpc g (context_numBits s)
        (case context_dictionary s (context_w s) of None \<Rightarrow> 0 | Some v \<Rightarrow> v) s)"
    by (simp add: output_w_def fresh_def)
  have "context_dictionaryToCreate s - {context_w s} = context_dictionaryToCreate s"
    using False by (auto simp: fresh_def)
  then show ?thesis
    unfolding o logic_enlarge using False
    by (simp add: write_value_fields ticks_def)
qed

lemma writer_toCreate_update: "writer (s\<lparr>context_dictionaryToCreate := x\<rparr>) = writer s"
  by (simp add: writer_def)

lemma written_cong: "writer s = writer t \<Longrightarrow> written s = written t"
  by (simp add: writer_def written_def)

lemma output_w_written:
  assumes ok: "writer_ok 6 (charAt keyStrUriSafe) s"
  shows "written (output_w 6 (charAt keyStrUriSafe) s) = written s @ out_bits s"
proof (cases "fresh s")
  case True
  let ?g = "charAt keyStrUriSafe"
  let ?s1 = "case context_w s of
      [] \<Rightarrow> write_value 6 ?g 16 0 (write_value 6 ?g (context_numBits s) 1 s)
    | u # us \<Rightarrow>
        if unat u < 256
        then write_value 6 ?g 8 (unat u) (write_value 6 ?g (context_numBits s) 0 s)
        else write_value 6 ?g 16 (unat u) (write_value 6 ?g (context_numBits s) 1 s)"
  have o: "output_w 6 ?g s =
      enlarge ((enlarge ?s1)\<lparr>context_dictionaryToCreate :=
        context_dictionaryToCreate (enlarge ?s1) - {context_w s}\<rparr>)"
    using True by (simp add: output_w_def fresh_def Let_def)
  have "written (output_w 6 ?g s) = written ?s1"
    unfolding o
    by (intro written_cong) (simp add: writer_enlarge writer_toCreate_update)
  also have "\<dots> = written s @ out_bits s"
    using True ok
    by (simp add: out_bits_def write_value_written write_value_ok split: list.split)
  finally show ?thesis .
next
  case False
  let ?g = "charAt keyStrUriSafe"
  have o: "output_w 6 ?g s = enlarge (write_value 6 ?g (context_numBits s) (code_of s) s)"
    using False by (simp add: output_w_def fresh_def code_of_def)
  have "written (output_w 6 ?g s) = written (write_value 6 ?g (context_numBits s) (code_of s) s)"
    unfolding o by (intro written_cong) (simp add: writer_enlarge)
  also have "\<dots> = written s @ out_bits s"
    using False ok by (simp add: out_bits_def write_value_written)
  finally show ?thesis .
qed

section \<open>One pass of the decompressor\<close>

definition after_code :: "decompress_state \<Rightarrow> jsstring \<Rightarrow> dstream \<Rightarrow> decompress_state" where
  "after_code D q d1 =
     \<lparr>dictionary = dictionary D @ [DStr (plus_string (w D) (charAt q 0))],
      enlargeIn = fst (tick (enlargeIn D, numBits D)),
      dictSize = dictSize D + 1,
      numBits = snd (tick (enlargeIn D, numBits D)),
      w = Some q,
      result = result D @ [Some q],
      data = d1\<rparr>"

definition after_literal :: "decompress_state \<Rightarrow> 16 word \<Rightarrow> dstream \<Rightarrow> decompress_state" where
  "after_literal D c d2 =
     \<lparr>dictionary = dictionary D @ [DStr [c], DStr (plus_string (w D) [c])],
      enlargeIn = fst (tick (tick (enlargeIn D, numBits D))),
      dictSize = dictSize D + 2,
      numBits = snd (tick (tick (enlargeIn D, numBits D))),
      w = Some [c],
      result = result D @ [Some [c]],
      data = d2\<rparr>"

lemma array_set_end: "array_set xs (length xs) v = xs @ [v]"
  by (simp add: array_set_def)

lemma pass_code_known:
  assumes len: "length (dictionary D) = dictSize D"
    and r: "read_bits gnv 32 (numBits D) (data D) = (i, d1)"
    and i: "3 \<le> i" "i < dictSize D"
    and e: "enlargeIn D \<noteq> 0"
    and q: "dictionary D ! i = DStr q" "q \<noteq> []"
  shows "decompress_pass gnv 32 D = Inr (after_code D q d1)"
proof -
  have t: "truthy_at (dictionary D) i"
    using len i q by (simp add: truthy_at_def)
  have c: "i \<noteq> 2" "\<not> (i = 0 \<or> i = 1)"
    using i by simp_all
  show ?thesis
    unfolding decompress_pass_def r prod.case Let_def
    using c e t q
    by (simp add: after_code_def tick_def len [symmetric] array_set_end)
qed

lemma pass_code_pending:
  assumes len: "length (dictionary D) = dictSize D"
    and r: "read_bits gnv 32 (numBits D) (data D) = (dictSize D, d1)"
    and i: "3 \<le> dictSize D"
    and e: "enlargeIn D \<noteq> 0"
    and p: "w D = Some p"
  shows "decompress_pass gnv 32 D = Inr (after_code D (p @ charAt p 0) d1)"
proof -
  have t: "\<not> truthy_at (dictionary D) (dictSize D)"
    using len by (simp add: truthy_at_def)
  have c: "dictSize D \<noteq> 2" "\<not> (dictSize D = 0 \<or> dictSize D = 1)"
    using i by simp_all
  show ?thesis
    unfolding decompress_pass_def r prod.case Let_def
    using c e t p
    by (simp add: after_code_def tick_def len [symmetric] array_set_end)
qed

lemma pass_literal:
  assumes len: "length (dictionary D) = dictSize D"
    and r: "read_bits gnv 32 (numBits D) (data D) = (c0, d1)"
    and c0: "c0 = 0 \<or> c0 = 1"
    and r2: "read_bits gnv 32 (if c0 = 0 then 8 else 16) d1 = (bits, d2)"
    and c: "of_nat bits = c"
  shows "decompress_pass gnv 32 D = Inr (after_literal D c d2)"
proof -
  have c2: "c0 \<noteq> 2"
    using c0 by auto
  have t: "truthy_at (dictionary D @ [DStr [c]]) (dictSize D)"
    using len by (simp add: truthy_at_def nth_append)
  have n: "(dictionary D @ [DStr [c]]) ! dictSize D = DStr [c]"
    using len by (simp add: nth_append)
  have l2: "length (dictionary D @ [DStr [c]]) = dictSize D + 1"
    using len by simp
  show ?thesis
    unfolding decompress_pass_def r prod.case Let_def
    using c0 c2 r2 c t n
    by (auto simp: after_literal_def tick_def len [symmetric] array_set_end fromCharCode_def
        charAt_def array_set_def)
qed

lemma pass_end:
  assumes r: "read_bits gnv 32 (numBits D) (data D) = (2, d1)"
  shows "decompress_pass gnv 32 D = Inl (Returns (Some (join (result D))))"
  unfolding decompress_pass_def r prod.case Let_def by simp

section \<open>The compressor and the decompressor in step\<close>

definition enc_inv :: "compress_context \<Rightarrow> bool" where
  "enc_inv E \<longleftrightarrow>
     context_w E \<noteq> [] \<and>
     context_w E \<in> dom (context_dictionary E) \<and>
     context_dictionaryToCreate E \<subseteq> {context_w E} \<and>
     [] \<notin> dom (context_dictionary E) \<and>
     (\<forall>k \<in> dom (context_dictionary E). \<forall>x \<in> set k. [x] \<in> dom (context_dictionary E)) \<and>
     (fresh E \<longrightarrow>
        length (context_w E) = 1 \<and>
        (\<forall>k \<in> dom (context_dictionary E). hd k = hd (context_w E) \<longrightarrow> k = context_w E))"

definition known :: "compress_context \<Rightarrow> decompress_state \<Rightarrow> jsstring \<Rightarrow> bool" where
  "known E D p \<longleftrightarrow>
     (\<forall>k i. context_dictionary E k = Some i \<longrightarrow>
        (3 \<le> i \<and> i < dictSize D \<and> dictionary D ! i = DStr k) \<or>
        (fresh E \<and> k = context_w E \<and> i = dictSize D) \<or>
        (k = p @ [hd (context_w E)] \<and> i = (if fresh E then dictSize D + 1 else dictSize D)))"

definition synced :: "compress_context \<Rightarrow> decompress_state \<Rightarrow> bool" where
  "synced E D \<longleftrightarrow>
     context_numBits E = numBits D \<and>
     context_enlargeIn E = enlargeIn D \<and>
     0 < enlargeIn D \<and>
     int (dictSize D) + enlargeIn D = 2 ^ numBits D \<and>
     length (dictionary D) = dictSize D \<and>
     4 \<le> dictSize D \<and>
     context_dictSize E = (if fresh E then dictSize D + 2 else dictSize D + 1) \<and>
     (fresh E \<longrightarrow> context_dictionary E (context_w E) = Some (dictSize D)) \<and>
     (\<exists>p. w D = Some p \<and> p \<noteq> [] \<and> known E D p)"

definition next_state :: "compress_context \<Rightarrow> decompress_state \<Rightarrow> dstream \<Rightarrow> decompress_state" where
  "next_state E D d =
     (if fresh E then after_literal D (hd (context_w E)) d else after_code D (context_w E) d)"

lemma read_field_pair:
  assumes "agree gnv (A @ vb n v @ B)" and "v < 2 ^ n" and "at_offset gnv (length A) d"
  shows "read_bits gnv 32 n d = (v, snd (read_bits gnv 32 n d))"
  using read_field(1) [OF assms] by (simp add: prod_eq_iff)

lemma synced_dictSize_less:
  assumes "synced E D"
  shows "dictSize D < 2 ^ numBits D"
proof -
  from assms have "0 < enlargeIn D" "int (dictSize D) + enlargeIn D = 2 ^ numBits D"
    by (simp_all add: synced_def)
  then have "int (dictSize D) < 2 ^ numBits D"
    by linarith
  then show ?thesis
    by (metis of_nat_less_iff of_nat_numeral of_nat_power)
qed

lemma pass_reads_literal:
  assumes inv: "enc_inv E" and syn: "synced E D" and fr: "fresh E"
    and ag: "agree gnv (written E @ out_bits E @ B)"
    and at: "at_offset gnv (length (written E)) (data D)"
  shows "\<exists>d. decompress_pass gnv 32 D = Inr (after_literal D (hd (context_w E)) d) \<and>
             at_offset gnv (length (written E) + length (out_bits E)) d"
proof -
  from inv fr obtain c where wc: "context_w E = [c]"
    by (cases "context_w E") (auto simp: enc_inv_def)
  from syn have nb: "context_numBits E = numBits D" and len: "length (dictionary D) = dictSize D"
    by (simp_all add: synced_def)
  let ?c0 = "if unat c < 256 then 0 else 1 :: nat"
  let ?n = "if unat c < 256 then 8 else 16 :: nat"
  have ob: "out_bits E = vb (numBits D) ?c0 @ vb ?n (unat c)"
    using fr wc nb by (simp add: out_bits_def)
  from syn have "4 \<le> dictSize D"
    by (simp add: synced_def)
  with synced_dictSize_less [OF syn] have "1 < (2::nat) ^ numBits D"
    by linarith
  then have c0: "?c0 < 2 ^ numBits D"
    by simp
  have ag1: "agree gnv (written E @ vb (numBits D) ?c0 @ (vb ?n (unat c) @ B))"
    using ag unfolding ob by simp
  let ?d1 = "snd (read_bits gnv 32 (numBits D) (data D))"
  have r1: "read_bits gnv 32 (numBits D) (data D) = (?c0, ?d1)"
    using ag1 c0 at by (rule read_field_pair)
  have at1: "at_offset gnv (length (written E @ vb (numBits D) ?c0)) ?d1"
    using read_field(2) [OF ag1 c0 at] by simp
  have ag2: "agree gnv ((written E @ vb (numBits D) ?c0) @ vb ?n (unat c) @ B)"
    using ag1 by simp
  have "unat c < 2 ^ 16"
    using unsigned_less [of c, where ?'a = nat] by simp
  then have lt: "unat c < 2 ^ ?n"
    by simp
  let ?d2 = "snd (read_bits gnv 32 ?n ?d1)"
  have r2: "read_bits gnv 32 ?n ?d1 = (unat c, ?d2)"
    using ag2 lt at1 by (rule read_field_pair)
  have at2: "at_offset gnv (length (written E @ vb (numBits D) ?c0) + ?n) ?d2"
    using read_field(2) [OF ag2 lt at1] .
  have r2': "read_bits gnv 32 (if ?c0 = 0 then 8 else 16) ?d1 = (unat c, ?d2)"
    using r2 by simp
  have "decompress_pass gnv 32 D = Inr (after_literal D c ?d2)"
    by (rule pass_literal [OF len r1 _ r2']) simp_all
  moreover have "at_offset gnv (length (written E) + length (out_bits E)) ?d2"
    using at2 unfolding ob by (simp add: add.assoc)
  ultimately show ?thesis
    using wc by auto
qed

lemma pass_reads_code:
  assumes inv: "enc_inv E" and syn: "synced E D" and fr: "\<not> fresh E"
    and ag: "agree gnv (written E @ out_bits E @ B)"
    and at: "at_offset gnv (length (written E)) (data D)"
  shows "\<exists>d. decompress_pass gnv 32 D = Inr (after_code D (context_w E) d) \<and>
             at_offset gnv (length (written E) + length (out_bits E)) d"
proof -
  from syn have nb: "context_numBits E = numBits D" and len: "length (dictionary D) = dictSize D"
    and e: "0 < enlargeIn D" and sum: "int (dictSize D) + enlargeIn D = 2 ^ numBits D"
    and n4: "4 \<le> dictSize D"
    by (simp_all add: synced_def)
  from syn obtain p where p: "w D = Some p" "p \<noteq> []" and kn: "known E D p"
    by (auto simp: synced_def)
  from inv obtain i where i: "context_dictionary E (context_w E) = Some i"
    by (auto simp: enc_inv_def)
  from inv have wne: "context_w E \<noteq> []"
    by (simp add: enc_inv_def)
  have ob: "out_bits E = vb (numBits D) i"
    using fr nb i by (simp add: out_bits_def code_of_def)
  from kn i fr have cases: "(3 \<le> i \<and> i < dictSize D \<and> dictionary D ! i = DStr (context_w E)) \<or>
      (context_w E = p @ [hd (context_w E)] \<and> i = dictSize D)"
    unfolding known_def by (auto split: if_splits)
  then have ile: "i \<le> dictSize D"
    by auto
  from synced_dictSize_less [OF syn] ile have lt: "i < 2 ^ numBits D"
    by linarith
  have ag1: "agree gnv (written E @ vb (numBits D) i @ B)"
    using ag unfolding ob .
  let ?d1 = "snd (read_bits gnv 32 (numBits D) (data D))"
  have r1: "read_bits gnv 32 (numBits D) (data D) = (i, ?d1)"
    using ag1 lt at by (rule read_field_pair)
  have at1: "at_offset gnv (length (written E) + length (out_bits E)) ?d1"
    using read_field(2) [OF ag1 lt at] unfolding ob by simp
  have e0: "enlargeIn D \<noteq> 0"
    using e by simp
  from cases have "decompress_pass gnv 32 D = Inr (after_code D (context_w E) ?d1)"
  proof
    assume a: "3 \<le> i \<and> i < dictSize D \<and> dictionary D ! i = DStr (context_w E)"
    show ?thesis
      by (rule pass_code_known [OF len r1 _ _ e0 _ wne]) (use a in simp_all)
  next
    assume a: "context_w E = p @ [hd (context_w E)] \<and> i = dictSize D"
    then have "hd (context_w E) = hd p"
      using p(2) by (metis hd_append2)
    with a p(2) have q: "context_w E = p @ charAt p 0"
      by (simp add: charAt_def hd_conv_nth)
    have r1': "read_bits gnv 32 (numBits D) (data D) = (dictSize D, ?d1)"
      using r1 a by simp
    have "3 \<le> dictSize D"
      using n4 by simp
    from pass_code_pending [OF len r1' this e0 p(1)] show ?thesis
      unfolding q [symmetric] .
  qed
  with at1 show ?thesis
    by blast
qed

lemma pass_reads_phrase:
  assumes "enc_inv E" and "synced E D"
    and "agree gnv (written E @ out_bits E @ B)"
    and "at_offset gnv (length (written E)) (data D)"
  shows "\<exists>d. decompress_pass gnv 32 D = Inr (next_state E D d) \<and>
             at_offset gnv (length (written E) + length (out_bits E)) d"
  using pass_reads_literal [OF assms(1,2) _ assms(3,4)]
    pass_reads_code [OF assms(1,2) _ assms(3,4)]
  by (cases "fresh E") (simp_all add: next_state_def)

lemma obj_set_char: "obj_set m [u] v = m([u] \<mapsto> v)"
  by (simp add: obj_set_def ascii_def)

lemma obj_set_dom: "dom (obj_set m k v) \<subseteq> insert k (dom m)"
  by (auto simp: obj_set_def)

lemma obj_set_other: "k' \<noteq> k \<Longrightarrow> obj_set m k v k' = m k'"
  by (simp add: obj_set_def)

lemma obj_set_Some: "obj_set m k v k' = Some i \<Longrightarrow> (k' = k \<and> i = v) \<or> m k' = Some i"
  by (auto simp: obj_set_def split: if_splits)

lemma logic_register_char:
  "logic (register_char E c) =
     (if context_dictionary E c = None
      then (obj_set (context_dictionary E) c (context_dictSize E),
            insert c (context_dictionaryToCreate E), context_w E, context_enlargeIn E,
            context_dictSize E + 1, context_numBits E)
      else logic E)"
  by (simp add: logic_def register_char_def)

lemma logic_add_phrase:
  "logic (add_phrase E wc c) =
     (obj_set (context_dictionary E) wc (context_dictSize E), context_dictionaryToCreate E,
      c, context_enlargeIn E, context_dictSize E + 1, context_numBits E)"
  by (simp add: logic_def add_phrase_def)

lemma logic_w_update:
  "logic (E\<lparr>context_w := x\<rparr>) =
     (context_dictionary E, context_dictionaryToCreate E, x, context_enlargeIn E,
      context_dictSize E, context_numBits E)"
  by (simp add: logic_def)

text \<open>A character that extends the current phrase to a known phrase is not new.\<close>

lemma extend_known:
  assumes inv: "enc_inv E"
    and wc: "context_dictionary (register_char E [u]) (context_w E @ [u]) \<noteq> None"
  shows "register_char E [u] = E" and "\<not> fresh E"
    and "context_dictionary E (context_w E @ [u]) \<noteq> None"
proof -
  from inv have wne: "context_w E \<noteq> []"
    and closed: "\<forall>k \<in> dom (context_dictionary E). \<forall>x \<in> set k. [x] \<in> dom (context_dictionary E)"
    by (simp_all add: enc_inv_def)
  have ne: "context_w E @ [u] \<noteq> [u]"
    using wne by simp
  have reg: "context_dictionary E [u] \<noteq> None"
  proof
    assume n: "context_dictionary E [u] = None"
    then have "context_dictionary (register_char E [u]) (context_w E @ [u]) =
        context_dictionary E (context_w E @ [u])"
      using ne by (simp add: register_char_def obj_set_char)
    with wc have "context_w E @ [u] \<in> dom (context_dictionary E)"
      by auto
    moreover have "u \<in> set (context_w E @ [u])"
      by simp
    ultimately have "[u] \<in> dom (context_dictionary E)"
      using closed by blast
    with n show False
      by auto
  qed
  then show r: "register_char E [u] = E"
    by (auto simp: register_char_def)
  with wc show d: "context_dictionary E (context_w E @ [u]) \<noteq> None"
    by simp
  show "\<not> fresh E"
  proof
    assume f: "fresh E"
    with inv have "\<forall>k \<in> dom (context_dictionary E). hd k = hd (context_w E) \<longrightarrow> k = context_w E"
      by (simp add: enc_inv_def)
    moreover have "hd (context_w E @ [u]) = hd (context_w E)"
      using wne by simp
    moreover from d have "context_w E @ [u] \<in> dom (context_dictionary E)"
      by auto
    ultimately have "context_w E @ [u] = context_w E"
      by blast
    then show False
      by simp
  qed
qed

lemma compress_char_extend:
  assumes inv: "enc_inv E"
    and wc: "context_dictionary (register_char E [u]) (context_w E @ [u]) \<noteq> None"
  shows "compress_char bpc g E u = E\<lparr>context_w := context_w E @ [u]\<rparr>"
  using wc extend_known(1) [OF inv wc] by (simp add: compress_char_def Let_def)

lemma extend_keeps_inv:
  assumes inv: "enc_inv E" and syn: "synced E D"
    and wc: "context_dictionary (register_char E [u]) (context_w E @ [u]) \<noteq> None"
  shows "enc_inv (compress_char bpc g E u)" and "synced (compress_char bpc g E u) D"
    and "written (compress_char bpc g E u) = written E"
proof -
  let ?E = "E\<lparr>context_w := context_w E @ [u]\<rparr>"
  have c: "compress_char bpc g E u = ?E"
    using inv wc by (rule compress_char_extend)
  note k = extend_known [OF inv wc]
  from inv k(2) have tc: "context_dictionaryToCreate E = {}"
    by (auto simp: enc_inv_def fresh_def)
  have nf: "\<not> fresh ?E"
    by (simp add: fresh_def tc)
  from inv have wne: "context_w E \<noteq> []"
    by (simp add: enc_inv_def)
  then have hd: "hd (context_w E @ [u]) = hd (context_w E)"
    by simp
  show "enc_inv (compress_char bpc g E u)"
    unfolding c using inv k(3) nf by (auto simp: enc_inv_def tc)
  show "synced (compress_char bpc g E u) D"
    unfolding c using syn k(2) nf by (simp add: synced_def known_def hd)
  show "written (compress_char bpc g E u) = written E"
    unfolding c by (simp add: written_def)
qed

text \<open>The state after a step that writes the current phrase.\<close>

lemma register_keeps_phrase:
  assumes inv: "enc_inv E"
  shows "fresh (register_char E [u]) = fresh E"
    and "context_dictionary (register_char E [u]) (context_w E) = context_dictionary E (context_w E)"
    and "context_w (register_char E [u]) = context_w E"
    and "context_numBits (register_char E [u]) = context_numBits E"
    and "context_enlargeIn (register_char E [u]) = context_enlargeIn E"
proof -
  from inv have d: "context_w E \<in> dom (context_dictionary E)"
    by (simp add: enc_inv_def)
  then have ne: "context_dictionary E [u] = None \<Longrightarrow> context_w E \<noteq> [u]"
    by auto
  show "fresh (register_char E [u]) = fresh E"
    using ne by (auto simp: fresh_def register_char_def)
  show "context_dictionary (register_char E [u]) (context_w E) = context_dictionary E (context_w E)"
    using ne by (auto simp: register_char_def obj_set_char)
  show "context_w (register_char E [u]) = context_w E"
    "context_numBits (register_char E [u]) = context_numBits E"
    "context_enlargeIn (register_char E [u]) = context_enlargeIn E"
    by (simp_all add: register_char_def)
qed

lemma register_keeps_output:
  assumes inv: "enc_inv E"
  shows "out_bits (register_char E [u]) = out_bits E"
    and "ticks (register_char E [u]) = ticks E"
  unfolding out_bits_def ticks_def code_of_def register_keeps_phrase [OF inv]
  by (rule refl)+

lemma emit_fields:
  assumes inv: "enc_inv E"
    and wc: "context_dictionary (register_char E [u]) (context_w E @ [u]) = None"
  shows "context_dictionary (compress_char bpc g E u) =
      obj_set (context_dictionary (register_char E [u])) (context_w E @ [u])
        (context_dictSize (register_char E [u]))"
    and "context_dictionaryToCreate (compress_char bpc g E u) =
      (if context_dictionary E [u] = None then {[u]} else {})"
    and "context_w (compress_char bpc g E u) = [u]"
    and "context_enlargeIn (compress_char bpc g E u) = fst (ticks E)"
    and "context_numBits (compress_char bpc g E u) = snd (ticks E)"
    and "context_dictSize (compress_char bpc g E u) =
      context_dictSize E + (if context_dictionary E [u] = None then 2 else 1)"
proof -
  let ?E1 = "register_char E [u]"
  have c: "compress_char bpc g E u = add_phrase (output_w bpc g ?E1) (context_w E @ [u]) [u]"
    using wc by (simp add: compress_char_def Let_def register_keeps_phrase(3) [OF inv])
  have lo: "logic (output_w bpc g ?E1) =
      (context_dictionary ?E1, context_dictionaryToCreate ?E1 - {context_w E}, context_w E,
       fst (ticks E), context_dictSize ?E1, snd (ticks E))"
    unfolding logic_output_w
    by (simp add: register_keeps_phrase(3) [OF inv] register_keeps_output(2) [OF inv])
  have l: "logic (compress_char bpc g E u) =
      (obj_set (context_dictionary ?E1) (context_w E @ [u]) (context_dictSize ?E1),
       context_dictionaryToCreate ?E1 - {context_w E}, [u], fst (ticks E),
       context_dictSize ?E1 + 1, snd (ticks E))"
    unfolding c logic_add_phrase using lo by (simp add: logic_def)
  from inv have sub: "context_dictionaryToCreate E \<subseteq> {context_w E}"
    and d: "context_w E \<in> dom (context_dictionary E)"
    by (simp_all add: enc_inv_def)
  from d have ne: "context_dictionary E [u] = None \<Longrightarrow> context_w E \<noteq> [u]"
    by auto
  have tc: "context_dictionaryToCreate ?E1 - {context_w E} =
      (if context_dictionary E [u] = None then {[u]} else {})"
    using sub ne by (auto simp: register_char_def)
  have ds: "context_dictSize ?E1 + 1 =
      context_dictSize E + (if context_dictionary E [u] = None then 2 else 1)"
    by (simp add: register_char_def)
  from l show "context_dictionary (compress_char bpc g E u) =
      obj_set (context_dictionary ?E1) (context_w E @ [u]) (context_dictSize ?E1)"
    and "context_w (compress_char bpc g E u) = [u]"
    and "context_enlargeIn (compress_char bpc g E u) = fst (ticks E)"
    and "context_numBits (compress_char bpc g E u) = snd (ticks E)"
    by (simp_all add: logic_def)
  from l tc show "context_dictionaryToCreate (compress_char bpc g E u) =
      (if context_dictionary E [u] = None then {[u]} else {})"
    by (simp add: logic_def)
  from l ds show "context_dictSize (compress_char bpc g E u) =
      context_dictSize E + (if context_dictionary E [u] = None then 2 else 1)"
    by (simp add: logic_def)
qed

lemma emit_written:
  assumes inv: "enc_inv E" and ok: "writer_ok 6 (charAt keyStrUriSafe) E"
    and wc: "context_dictionary (register_char E [u]) (context_w E @ [u]) = None"
  shows "written (compress_char 6 (charAt keyStrUriSafe) E u) = written E @ out_bits E"
proof -
  let ?g = "charAt keyStrUriSafe"
  let ?E1 = "register_char E [u]"
  have c: "compress_char 6 ?g E u = add_phrase (output_w 6 ?g ?E1) (context_w E @ [u]) [u]"
    using wc by (simp add: compress_char_def Let_def register_keeps_phrase(3) [OF inv])
  have ok1: "writer_ok 6 ?g ?E1"
    using ok writer_ok_cong [OF writer_register_char] by simp
  have "written (compress_char 6 ?g E u) = written (output_w 6 ?g ?E1)"
    unfolding c by (rule written_cong [OF writer_add_phrase])
  also have "\<dots> = written ?E1 @ out_bits ?E1"
    using ok1 by (rule output_w_written)
  also have "written ?E1 = written E"
    by (rule written_cong [OF writer_register_char])
  finally show ?thesis
    by (simp add: register_keeps_output(1) [OF inv])
qed

lemma tick_sum:
  assumes "0 < e" and "int n + e = 2 ^ nb"
  shows "0 < fst (tick (e, nb))"
    and "int (Suc n) + fst (tick (e, nb)) = 2 ^ snd (tick (e, nb))"
  using assms by (auto simp: tick_def)

lemma next_state_fields:
  assumes inv: "enc_inv E" and syn: "synced E D" and p: "w D = Some p"
  shows "w (next_state E D d) = Some (context_w E)"
    and "dictSize (next_state E D d) = context_dictSize E"
    and "enlargeIn (next_state E D d) = fst (ticks E)"
    and "numBits (next_state E D d) = snd (ticks E)"
    and "dictionary (next_state E D d) =
      dictionary D @ (if fresh E then [DStr (context_w E)] else []) @
      [DStr (p @ [hd (context_w E)])]"
    and "result (next_state E D d) = result D @ [Some (context_w E)]"
    and "data (next_state E D d) = d"
proof -
  from inv have wne: "context_w E \<noteq> []" and
    one: "fresh E \<Longrightarrow> length (context_w E) = 1"
    by (simp_all add: enc_inv_def)
  have single: "fresh E \<Longrightarrow> [hd (context_w E)] = context_w E"
    using one by (cases "context_w E") auto
  have ch: "charAt (context_w E) 0 = [hd (context_w E)]"
    using wne by (simp add: charAt_def hd_conv_nth)
  from syn have e: "context_numBits E = numBits D" "context_enlargeIn E = enlargeIn D"
    "context_dictSize E = (if fresh E then dictSize D + 2 else dictSize D + 1)"
    by (simp_all add: synced_def)
  show "w (next_state E D d) = Some (context_w E)"
    using single by (simp add: next_state_def after_literal_def after_code_def)
  show "dictSize (next_state E D d) = context_dictSize E"
    using e by (simp add: next_state_def after_literal_def after_code_def)
  show "enlargeIn (next_state E D d) = fst (ticks E)"
    using e by (simp add: next_state_def after_literal_def after_code_def ticks_def)
  show "numBits (next_state E D d) = snd (ticks E)"
    using e by (simp add: next_state_def after_literal_def after_code_def ticks_def)
  show "dictionary (next_state E D d) =
      dictionary D @ (if fresh E then [DStr (context_w E)] else []) @
      [DStr (p @ [hd (context_w E)])]"
    using single ch p
    by (simp add: next_state_def after_literal_def after_code_def plus_string_def)
  show "result (next_state E D d) = result D @ [Some (context_w E)]"
    using single by (simp add: next_state_def after_literal_def after_code_def)
  show "data (next_state E D d) = d"
    by (simp add: next_state_def after_literal_def after_code_def)
qed

lemma emit_dom:
  assumes inv: "enc_inv E"
    and wc: "context_dictionary (register_char E [u]) (context_w E @ [u]) = None"
  shows "dom (context_dictionary E) \<subseteq> dom (context_dictionary (compress_char bpc g E u))"
    and "[u] \<in> dom (context_dictionary (compress_char bpc g E u))"
    and "dom (context_dictionary (compress_char bpc g E u)) \<subseteq>
      insert (context_w E @ [u]) (insert [u] (dom (context_dictionary E)))"
proof -
  let ?E1 = "register_char E [u]"
  let ?wc = "context_w E @ [u]"
  note f = emit_fields(1) [OF inv wc, of bpc g]
  have d1: "dom (context_dictionary ?E1) = insert [u] (dom (context_dictionary E))"
    by (auto simp: register_char_def obj_set_char)
  have keep: "context_dictionary (compress_char bpc g E u) k = context_dictionary ?E1 k"
    if "k \<in> dom (context_dictionary ?E1)" for k
  proof -
    from that wc have "k \<noteq> ?wc"
      by auto
    then show ?thesis
      unfolding f by (rule obj_set_other)
  qed
  then have sub: "dom (context_dictionary ?E1) \<subseteq> dom (context_dictionary (compress_char bpc g E u))"
    by (auto simp: dom_def)
  with d1 show "dom (context_dictionary E) \<subseteq> dom (context_dictionary (compress_char bpc g E u))"
    and "[u] \<in> dom (context_dictionary (compress_char bpc g E u))"
    by auto
  show "dom (context_dictionary (compress_char bpc g E u)) \<subseteq>
      insert ?wc (insert [u] (dom (context_dictionary E)))"
    unfolding f using obj_set_dom [of "context_dictionary ?E1" ?wc "context_dictSize ?E1"] d1
    by auto
qed

lemma emit_keeps_enc_inv:
  assumes inv: "enc_inv E"
    and wc: "context_dictionary (register_char E [u]) (context_w E @ [u]) = None"
  shows "enc_inv (compress_char bpc g E u)"
proof -
  let ?E' = "compress_char bpc g E u"
  let ?wc = "context_w E @ [u]"
  note f = emit_fields [OF inv wc, of bpc g]
  note d = emit_dom [OF inv wc, of bpc g]
  from inv have wne: "context_w E \<noteq> []"
    and win: "context_w E \<in> dom (context_dictionary E)"
    and nonil: "[] \<notin> dom (context_dictionary E)"
    and closed: "\<forall>k \<in> dom (context_dictionary E). \<forall>x \<in> set k. [x] \<in> dom (context_dictionary E)"
    by (simp_all add: enc_inv_def)
  have a1: "context_w ?E' \<noteq> []" "context_w ?E' \<in> dom (context_dictionary ?E')"
    "context_dictionaryToCreate ?E' \<subseteq> {context_w ?E'}"
    using d(2) by (simp_all add: f)
  have a2: "[] \<notin> dom (context_dictionary ?E')"
    using d(3) nonil by auto
  have a3: "[x] \<in> dom (context_dictionary ?E')"
    if k: "k \<in> dom (context_dictionary ?E')" and x: "x \<in> set k" for k x
  proof -
    from k d(3) consider "k = ?wc" | "k = [u]" | "k \<in> dom (context_dictionary E)"
      by blast
    then show ?thesis
    proof cases
      case 1
      with x have "x = u \<or> x \<in> set (context_w E)"
        by auto
      then show ?thesis
        using closed win d(1,2) by blast
    next
      case 2
      with x d(2) show ?thesis by simp
    next
      case 3
      with x closed d(1) show ?thesis by blast
    qed
  qed
  have a4: "k = context_w ?E'"
    if fr: "fresh ?E'" and k: "k \<in> dom (context_dictionary ?E')"
      and h: "hd k = hd (context_w ?E')" for k
  proof -
    from fr have new: "context_dictionary E [u] = None"
      by (simp add: fresh_def f split: if_splits)
    have no: "u \<notin> set k'" if "k' \<in> dom (context_dictionary E)" for k'
      using that closed new by blast
    from h have hu: "hd k = u"
      by (simp add: f)
    from k d(3) consider "k = ?wc" | "k = [u]" | "k \<in> dom (context_dictionary E)"
      by blast
    then show ?thesis
    proof cases
      case 1
      with hu wne have "hd (context_w E) = u"
        by simp
      with wne have "u \<in> set (context_w E)"
        by (metis hd_in_set)
      with no [OF win] show ?thesis
        by simp
    next
      case 2
      then show ?thesis by (simp add: f)
    next
      case 3
      with nonil have "k \<noteq> []"
        by auto
      with hu have "u \<in> set k"
        by (metis hd_in_set)
      with no [OF 3] show ?thesis
        by simp
    qed
  qed
  have a5: "fresh ?E' \<Longrightarrow> length (context_w ?E') = 1"
    by (simp add: f)
  show ?thesis
    unfolding enc_inv_def using a1 a2 a3 a4 a5 by blast
qed

lemma ticks_sum:
  assumes inv: "enc_inv E" and syn: "synced E D"
  shows "0 < fst (ticks E)"
    and "int (context_dictSize E) + fst (ticks E) = 2 ^ snd (ticks E)"
proof -
  from syn have e: "context_numBits E = numBits D" "context_enlargeIn E = enlargeIn D"
    "0 < enlargeIn D" "int (dictSize D) + enlargeIn D = 2 ^ numBits D"
    "context_dictSize E = (if fresh E then dictSize D + 2 else dictSize D + 1)"
    by (simp_all add: synced_def)
  let ?t1 = "tick (enlargeIn D, numBits D)"
  have t1: "0 < fst ?t1" "int (Suc (dictSize D)) + fst ?t1 = 2 ^ snd ?t1"
    using tick_sum [OF e(3,4)] by simp_all
  have t2: "0 < fst (tick ?t1)" "int (Suc (Suc (dictSize D))) + fst (tick ?t1) = 2 ^ snd (tick ?t1)"
    using tick_sum [OF t1, unfolded prod.collapse] by simp_all
  show "0 < fst (ticks E)"
    using t1(1) t2(1) by (simp add: ticks_def e)
  show "int (context_dictSize E) + fst (ticks E) = 2 ^ snd (ticks E)"
    using t1(2) t2(2) by (simp add: ticks_def e)
qed

lemma emit_keeps_known:
  assumes inv: "enc_inv E" and syn: "synced E D" and p: "w D = Some p" and kn: "known E D p"
    and wc: "context_dictionary (register_char E [u]) (context_w E @ [u]) = None"
  shows "known (compress_char bpc g E u) (next_state E D d) (context_w E)"
  unfolding known_def
proof (intro allI impI)
  fix k i
  let ?E' = "compress_char bpc g E u"
  let ?D' = "next_state E D d"
  let ?E1 = "register_char E [u]"
  let ?wc = "context_w E @ [u]"
  let ?n = "dictSize D"
  note f = emit_fields [OF inv wc, of bpc g]
  note nf = next_state_fields [OF inv syn p, of d]
  from syn have len: "length (dictionary D) = ?n" and n4: "4 \<le> ?n"
    and ds: "context_dictSize E = (if fresh E then ?n + 2 else ?n + 1)"
    by (simp_all add: synced_def)
  from inv have one: "fresh E \<Longrightarrow> length (context_w E) = 1"
    by (simp add: enc_inv_def)
  have fr': "fresh ?E' = (context_dictionary E [u] = None)"
    by (simp add: fresh_def f)
  assume ki: "context_dictionary ?E' k = Some i"
  then consider (phrase) "k = ?wc" "i = context_dictSize ?E1"
    | (old) "context_dictionary ?E1 k = Some i"
    unfolding f(1) using obj_set_Some by metis
  then show "(3 \<le> i \<and> i < dictSize ?D' \<and> dictionary ?D' ! i = DStr k) \<or>
      (fresh ?E' \<and> k = context_w ?E' \<and> i = dictSize ?D') \<or>
      (k = context_w E @ [hd (context_w ?E')] \<and>
       i = (if fresh ?E' then dictSize ?D' + 1 else dictSize ?D'))"
  proof cases
    case phrase
    then show ?thesis
      by (simp add: f nf fr' register_char_def)
  next
    case old
    show ?thesis
    proof (cases "context_dictionary E [u] = None \<and> k = [u]")
      case True
      with old have "i = context_dictSize E"
        by (simp add: register_char_def obj_set_char)
      with True show ?thesis
        by (simp add: f nf fr')
    next
      case False
      with old have "context_dictionary E k = Some i"
        by (auto simp: register_char_def obj_set_char split: if_splits)
      with kn consider
        (a) "3 \<le> i" "i < ?n" "dictionary D ! i = DStr k"
        | (b) "fresh E" "k = context_w E" "i = ?n"
        | (c) "k = p @ [hd (context_w E)]" "i = (if fresh E then ?n + 1 else ?n)"
        unfolding known_def by blast
      then have "3 \<le> i \<and> i < dictSize ?D' \<and> dictionary ?D' ! i = DStr k"
      proof cases
        case a
        then show ?thesis
          using len ds by (simp add: nf nth_append)
      next
        case b
        then show ?thesis
          using len ds n4 by (simp add: nf nth_append)
      next
        case c
        then show ?thesis
          using len ds n4 by (simp add: nf nth_append)
      qed
      then show ?thesis
        by blast
    qed
  qed
qed

lemma emit_keeps_synced:
  assumes inv: "enc_inv E" and syn: "synced E D"
    and wc: "context_dictionary (register_char E [u]) (context_w E @ [u]) = None"
  shows "synced (compress_char bpc g E u) (next_state E D d)"
proof -
  let ?E' = "compress_char bpc g E u"
  let ?D' = "next_state E D d"
  from syn obtain p where p: "w D = Some p" "p \<noteq> []" and kn: "known E D p"
    by (auto simp: synced_def)
  note f = emit_fields [OF inv wc, of bpc g]
  note nf = next_state_fields [OF inv syn p(1), of d]
  note ts = ticks_sum [OF inv syn]
  from syn have len: "length (dictionary D) = dictSize D" and n4: "4 \<le> dictSize D"
    and ds: "context_dictSize E = (if fresh E then dictSize D + 2 else dictSize D + 1)"
    by (simp_all add: synced_def)
  from inv have wne: "context_w E \<noteq> []"
    by (simp add: enc_inv_def)
  have fr': "fresh ?E' = (context_dictionary E [u] = None)"
    by (simp add: fresh_def f)
  have b1: "context_numBits ?E' = numBits ?D'" "context_enlargeIn ?E' = enlargeIn ?D'"
    by (simp_all add: f nf)
  have b2: "0 < enlargeIn ?D'" "int (dictSize ?D') + enlargeIn ?D' = 2 ^ numBits ?D'"
    using ts by (simp_all add: nf)
  have b3: "length (dictionary ?D') = dictSize ?D'" "4 \<le> dictSize ?D'"
    using len ds n4 by (simp_all add: nf)
  have b4: "context_dictSize ?E' = (if fresh ?E' then dictSize ?D' + 2 else dictSize ?D' + 1)"
    by (simp add: f nf fr')
  have b5: "fresh ?E' \<longrightarrow> context_dictionary ?E' (context_w ?E') = Some (dictSize ?D')"
  proof
    assume "fresh ?E'"
    then have new: "context_dictionary E [u] = None"
      by (simp add: fr')
    have "[u] \<noteq> context_w E @ [u]"
      using wne by simp
    then have "context_dictionary ?E' [u] = context_dictionary (register_char E [u]) [u]"
      unfolding f(1) by (rule obj_set_other)
    also have "\<dots> = Some (context_dictSize E)"
      using new by (simp add: register_char_def obj_set_char)
    finally show "context_dictionary ?E' (context_w ?E') = Some (dictSize ?D')"
      by (simp add: f nf)
  qed
  have b6: "w ?D' = Some (context_w E) \<and> context_w E \<noteq> [] \<and> known ?E' ?D' (context_w E)"
    using nf(1) wne emit_keeps_known [OF inv syn p(1) kn wc] by simp
  show ?thesis
    unfolding synced_def using b1 b2 b3 b4 b5 b6 by blast
qed

section \<open>The whole output of the compressor\<close>

definition finish :: "compress_context \<Rightarrow> compress_context" where
  "finish E =
     (let s2 = (if context_w E \<noteq> [] then output_w 6 (charAt keyStrUriSafe) E else E);
          s3 = write_value 6 (charAt keyStrUriSafe) (context_numBits s2) 2 s2
      in flush 6 (charAt keyStrUriSafe) s3)"

lemma LZ_compress_finish:
  "LZ_compress us 6 (charAt keyStrUriSafe) =
     concat (context_data (finish (foldl (compress_char 6 (charAt keyStrUriSafe)) compress_init us)))"
  by (simp add: LZ_compress_def finish_def Let_def)

lemma written_compress_char_prefix:
  assumes "writer_ok 6 (charAt keyStrUriSafe) E"
  shows "\<exists>X. written (compress_char 6 (charAt keyStrUriSafe) E u) = written E @ X"
proof -
  let ?g = "charAt keyStrUriSafe"
  let ?E1 = "register_char E [u]"
  have ok1: "writer_ok 6 ?g ?E1"
    using assms writer_ok_cong [OF writer_register_char] by simp
  have w1: "written ?E1 = written E"
    by (rule written_cong [OF writer_register_char])
  show ?thesis
  proof (cases "context_dictionary ?E1 (context_w ?E1 @ [u]) \<noteq> None")
    case True
    then have "compress_char 6 ?g E u = ?E1\<lparr>context_w := context_w ?E1 @ [u]\<rparr>"
      by (simp add: compress_char_def Let_def)
    then have "written (compress_char 6 ?g E u) = written ?E1"
      by (simp add: written_def)
    with w1 show ?thesis
      by simp
  next
    case False
    then have "compress_char 6 ?g E u = add_phrase (output_w 6 ?g ?E1) (context_w ?E1 @ [u]) [u]"
      by (simp add: compress_char_def Let_def)
    then have "written (compress_char 6 ?g E u) = written (output_w 6 ?g ?E1)"
      by (simp add: written_cong [OF writer_add_phrase])
    with output_w_written [OF ok1] w1 show ?thesis
      by simp
  qed
qed

lemma written_foldl_prefix:
  "writer_ok 6 (charAt keyStrUriSafe) E \<Longrightarrow>
   \<exists>X. written (foldl (compress_char 6 (charAt keyStrUriSafe)) E us) = written E @ X"
proof (induction us arbitrary: E)
  case Nil
  then show ?case by simp
next
  case (Cons u us)
  from written_compress_char_prefix [OF Cons.prems, of u] obtain X
    where X: "written (compress_char 6 (charAt keyStrUriSafe) E u) = written E @ X"
    by blast
  from Cons.IH [OF compress_char_ok [OF Cons.prems], of u] obtain Y
    where "written (foldl (compress_char 6 (charAt keyStrUriSafe))
        (compress_char 6 (charAt keyStrUriSafe) E u) us) =
      written (compress_char 6 (charAt keyStrUriSafe) E u) @ Y"
    by blast
  with X show ?case
    by simp
qed

lemma position_write_bit:
  "writer_ok 6 g s \<Longrightarrow> context_data_position (write_bit 6 g b s) = Suc (context_data_position s) mod 6"
  by (auto simp: writer_ok_def write_bit_def Let_def)

lemma position_write_value:
  "writer_ok 6 g s \<Longrightarrow>
   context_data_position (write_value 6 g n 0 s) = (context_data_position s + n) mod 6"
proof (induction n arbitrary: s)
  case 0
  then show ?case by (simp add: writer_ok_def)
next
  case (Suc n)
  have ok': "writer_ok 6 g (write_bit 6 g 0 s)"
    using Suc.prems by (rule write_bit_ok) simp
  show ?case
    using Suc.IH [OF ok'] position_write_bit [OF Suc.prems, of 0]
    by (simp add: mod_simps)
qed

lemma length_written:
  assumes "\<forall>x \<in> set (context_data s). length (char_bits x) = 6"
  shows "length (written s) = 6 * length (context_data s) + context_data_position s"
proof -
  have "length (concat (map char_bits xs)) = 6 * length xs"
    if "\<forall>x \<in> set xs. length (char_bits x) = 6" for xs
    using that by (induction xs) simp_all
  with assms show ?thesis
    by (simp add: written_def)
qed

lemma length_char_bits: "length (char_bits x) = 6"
  by (simp add: char_bits_def split: option.split)

lemma written_finish:
  assumes ok: "writer_ok 6 (charAt keyStrUriSafe) E"
  shows "\<exists>pad. 0 < pad \<and>
      written (finish E) =
        written E @ (if context_w E \<noteq> [] then out_bits E else []) @
        vb (if context_w E \<noteq> [] then snd (ticks E) else context_numBits E) 2 @ vb pad 0"
    and "length (written (finish E)) = 6 * length (context_data (finish E))"
proof -
  let ?g = "charAt keyStrUriSafe"
  let ?s2 = "if context_w E \<noteq> [] then output_w 6 ?g E else E"
  let ?s3 = "write_value 6 ?g (context_numBits ?s2) 2 ?s2"
  let ?pad = "6 - context_data_position ?s3"
  have f: "finish E = write_value 6 ?g ?pad 0 ?s3"
    by (simp add: finish_def flush_def Let_def)
  have ok2: "writer_ok 6 ?g ?s2"
    using ok by (simp add: output_w_ok)
  then have ok3: "writer_ok 6 ?g ?s3"
    by (rule write_value_ok)
  then have p: "context_data_position ?s3 < 6"
    by (simp add: writer_ok_def)
  have nb: "context_numBits ?s2 = (if context_w E \<noteq> [] then snd (ticks E) else context_numBits E)"
    using logic_output_w [of 6 ?g E] by (simp add: logic_def)
  have w2: "written ?s2 = written E @ (if context_w E \<noteq> [] then out_bits E else [])"
    using ok by (simp add: output_w_written)
  have "written (finish E) = written ?s3 @ vb ?pad 0"
    unfolding f using ok3 by (rule write_value_written)
  also have "written ?s3 = written ?s2 @ vb (context_numBits ?s2) 2"
    using ok2 by (rule write_value_written)
  finally have "written (finish E) =
      written E @ (if context_w E \<noteq> [] then out_bits E else []) @
      vb (if context_w E \<noteq> [] then snd (ticks E) else context_numBits E) 2 @ vb ?pad 0"
    unfolding w2 nb by simp
  moreover have "0 < ?pad"
    using p by simp
  ultimately show "\<exists>pad. 0 < pad \<and>
      written (finish E) =
        written E @ (if context_w E \<noteq> [] then out_bits E else []) @
        vb (if context_w E \<noteq> [] then snd (ticks E) else context_numBits E) 2 @ vb pad 0"
    by blast
  have "context_data_position (finish E) = (context_data_position ?s3 + ?pad) mod 6"
    unfolding f using ok3 by (rule position_write_value)
  then have "context_data_position (finish E) = 0"
    using p by simp
  then show "length (written (finish E)) = 6 * length (context_data (finish E))"
    using length_written [of "finish E"] by (simp add: length_char_bits)
qed

section \<open>Decompression follows compression\<close>

lemma loop_step:
  "\<not> len < index (data D) \<Longrightarrow> decompress_pass gnv 32 D = Inr D' \<Longrightarrow>
   decompress_loop len 32 gnv D = decompress_loop len 32 gnv D'"
  by (subst decompress_loop.simps) simp

lemma loop_end:
  "\<not> len < index (data D) \<Longrightarrow> decompress_pass gnv 32 D = Inl r \<Longrightarrow>
   decompress_loop len 32 gnv D = r"
  by (subst decompress_loop.simps) simp

lemma index_bound: "at_offset gnv k d \<Longrightarrow> k < 6 * len \<Longrightarrow> \<not> len < index d"
proof -
  assume a: "at_offset gnv k d" and k: "k < 6 * len"
  from k have "k div 6 < len"
    by (simp add: less_mult_imp_div_less mult.commute)
  with a show ?thesis
    by (simp add: at_offset_def)
qed

lemma join_snoc: "join (xs @ [Some x]) = join xs @ x"
  by (simp add: join_def)

lemma two_fits:
  assumes inv: "enc_inv E" and syn: "synced E D"
  shows "2 < (2::nat) ^ snd (ticks E)"
proof -
  from ticks_sum [OF inv syn] have "int (context_dictSize E) < 2 ^ snd (ticks E)"
    by linarith
  then have "context_dictSize E < 2 ^ snd (ticks E)"
    by (metis of_nat_less_iff of_nat_numeral of_nat_power)
  moreover from syn have "4 < context_dictSize E"
    by (simp add: synced_def split: if_splits)
  ultimately show ?thesis
    by linarith
qed

lemma decompress_last:
  assumes inv: "enc_inv E" and syn: "synced E D" and ok: "writer_ok 6 (charAt keyStrUriSafe) E"
    and ag: "agree gnv (written (finish E))"
    and at: "at_offset gnv (length (written E)) (data D)"
    and len: "length (written (finish E)) \<le> 6 * len"
  shows "decompress_loop len 32 gnv D = Returns (Some (join (result D) @ context_w E))"
proof -
  from inv have wne: "context_w E \<noteq> []"
    by (simp add: enc_inv_def)
  from written_finish(1) [OF ok] wne obtain pad where pad: "0 < pad"
    and W: "written (finish E) = written E @ out_bits E @ vb (snd (ticks E)) 2 @ vb pad 0"
    by auto
  from syn obtain p where p: "w D = Some p"
    by (auto simp: synced_def)
  have ag1: "agree gnv (written E @ out_bits E @ (vb (snd (ticks E)) 2 @ vb pad 0))"
    using ag unfolding W .
  from pass_reads_phrase [OF inv syn ag1 at] obtain d
    where pass: "decompress_pass gnv 32 D = Inr (next_state E D d)"
      and at1: "at_offset gnv (length (written E) + length (out_bits E)) d"
    by blast
  note nf = next_state_fields [OF inv syn p, of d]
  have k0: "length (written E) < 6 * len"
    using len pad unfolding W by simp
  have k1: "length (written E) + length (out_bits E) < 6 * len"
    using len pad unfolding W by simp
  have s1: "decompress_loop len 32 gnv D = decompress_loop len 32 gnv (next_state E D d)"
    using index_bound [OF at k0] pass by (rule loop_step)
  have ag2: "agree gnv ((written E @ out_bits E) @ vb (snd (ticks E)) 2 @ vb pad 0)"
    using ag1 by simp
  have at2: "at_offset gnv (length (written E @ out_bits E)) d"
    using at1 by simp
  have "read_bits gnv 32 (snd (ticks E)) d = (2, snd (read_bits gnv 32 (snd (ticks E)) d))"
    using ag2 two_fits [OF inv syn] at2 by (rule read_field_pair)
  then have "read_bits gnv 32 (numBits (next_state E D d)) (data (next_state E D d)) =
      (2, snd (read_bits gnv 32 (snd (ticks E)) d))"
    by (simp add: nf)
  then have "decompress_pass gnv 32 (next_state E D d) =
      Inl (Returns (Some (join (result (next_state E D d)))))"
    by (rule pass_end)
  moreover have "\<not> len < index (data (next_state E D d))"
    using index_bound [OF at1 k1] by (simp add: nf)
  ultimately have "decompress_loop len 32 gnv (next_state E D d) =
      Returns (Some (join (result (next_state E D d))))"
    by (rule loop_end [rotated])
  with s1 show ?thesis
    by (simp add: nf join_snoc)
qed

lemma decompress_follows:
  assumes "enc_inv E" and "synced E D" and "writer_ok 6 (charAt keyStrUriSafe) E"
    and "agree gnv (written (finish (foldl (compress_char 6 (charAt keyStrUriSafe)) E us)))"
    and "at_offset gnv (length (written E)) (data D)"
    and "length (written (finish (foldl (compress_char 6 (charAt keyStrUriSafe)) E us))) \<le> 6 * len"
  shows "decompress_loop len 32 gnv D = Returns (Some (join (result D) @ context_w E @ us))"
  using assms
proof (induction us arbitrary: E D)
  case Nil
  then show ?case
    using decompress_last [of E D gnv len] by simp
next
  case (Cons u us)
  let ?g = "charAt keyStrUriSafe"
  let ?E' = "compress_char 6 ?g E u"
  let ?W = "written (finish (foldl (compress_char 6 ?g) ?E' us))"
  note inv = Cons.prems(1) and syn = Cons.prems(2) and ok = Cons.prems(3)
  have ag: "agree gnv ?W" and len: "length ?W \<le> 6 * len"
    using Cons.prems(4,6) by simp_all
  note at = Cons.prems(5)
  have ok': "writer_ok 6 ?g ?E'"
    using ok by (rule compress_char_ok)
  show ?case
  proof (cases "context_dictionary (register_char E [u]) (context_w E @ [u]) = None")
    case False
    note k = extend_keeps_inv [OF inv syn False, of 6 ?g]
    have at': "at_offset gnv (length (written ?E')) (data D)"
      using at by (simp add: k(3))
    have "decompress_loop len 32 gnv D = Returns (Some (join (result D) @ context_w ?E' @ us))"
      by (rule Cons.IH [OF k(1) k(2) ok' ag at' len])
    moreover have "context_w ?E' = context_w E @ [u]"
      using compress_char_extend [OF inv False, of 6 ?g] by simp
    ultimately show ?thesis
      by simp
  next
    case True
    have wE': "written ?E' = written E @ out_bits E"
      using inv ok True by (rule emit_written)
    from written_foldl_prefix [OF ok', of us] obtain X
      where X: "written (foldl (compress_char 6 ?g) ?E' us) = written ?E' @ X"
      by blast
    have okf: "writer_ok 6 ?g (foldl (compress_char 6 ?g) ?E' us)"
      using ok' by (rule foldl_compress_char_ok)
    from written_finish(1) [OF okf] obtain Y pad where pad: "0 < pad"
      and Y: "?W = written (foldl (compress_char 6 ?g) ?E' us) @ Y @ vb pad 0"
      by (metis append_assoc)
    have W: "?W = written E @ out_bits E @ (X @ Y @ vb pad 0)"
      unfolding Y X wE' by simp
    have ag1: "agree gnv (written E @ out_bits E @ (X @ Y @ vb pad 0))"
      using ag unfolding W .
    from syn obtain p where p: "w D = Some p"
      by (auto simp: synced_def)
    from pass_reads_phrase [OF inv syn ag1 at] obtain d
      where pass: "decompress_pass gnv 32 D = Inr (next_state E D d)"
        and at1: "at_offset gnv (length (written E) + length (out_bits E)) d"
      by blast
    note nf = next_state_fields [OF inv syn p, of d]
    have k0: "length (written E) < 6 * len"
      using len pad unfolding W by simp
    have s1: "decompress_loop len 32 gnv D = decompress_loop len 32 gnv (next_state E D d)"
      using index_bound [OF at k0] pass by (rule loop_step)
    have inv': "enc_inv ?E'"
      using inv True by (rule emit_keeps_enc_inv)
    have syn': "synced ?E' (next_state E D d)"
      using inv syn True by (rule emit_keeps_synced)
    have at': "at_offset gnv (length (written ?E')) (data (next_state E D d))"
      using at1 by (simp add: wE' nf)
    have "decompress_loop len 32 gnv (next_state E D d) =
        Returns (Some (join (result (next_state E D d)) @ context_w ?E' @ us))"
      by (rule Cons.IH [OF inv' syn' ok' ag at' len])
    moreover have "context_w ?E' = [u]"
      using emit_fields(3) [OF inv True] .
    ultimately show ?thesis
      using s1 by (simp add: nf join_snoc)
  qed
qed

section \<open>The token as the decompressor reads it\<close>

lemma nth_concat_uniform:
  assumes "\<forall>x \<in> set xss. length x = n" and "i < n * length xss"
  shows "concat xss ! i = xss ! (i div n) ! (i mod n)"
  using assms
proof (induction xss arbitrary: i)
  case Nil
  then show ?case by simp
next
  case (Cons x xss)
  then have lx: "length x = n"
    by simp
  from Cons.prems(2) have n: "0 < n"
    by (cases n) simp_all
  show ?case
  proof (cases "i < n")
    case True
    then show ?thesis
      by (simp add: nth_append lx)
  next
    case False
    then have ge: "n \<le> i"
      by simp
    then have d: "i div n = Suc ((i - n) div n)" and m: "i mod n = (i - n) mod n"
      using n by (simp_all add: le_div_geq le_mod_geq)
    have "i - n < n * length xss"
      using Cons.prems(2) ge by simp
    with Cons.IH [of "i - n"] Cons.prems(1)
    have "concat xss ! (i - n) = xss ! ((i - n) div n) ! ((i - n) mod n)"
      by simp
    with False show ?thesis
      by (simp add: nth_append lx d m)
  qed
qed

lemma rev_upt6_nth: "m < 6 \<Longrightarrow> rev [0..<6] ! m = 5 - m"
  by (simp add: rev_nth)

lemma char_bits_nth:
  assumes "m < 6"
  shows "char_bits x ! m =
     (case getBaseValue keyStrUriSafe x of None \<Rightarrow> False | Some v \<Rightarrow> bit v (5 - m))"
proof (cases "getBaseValue keyStrUriSafe x")
  case None
  with assms show ?thesis
    by (simp add: char_bits_def)
next
  case (Some v)
  have "map (bit v) (rev [0..<6]) ! m = bit v (rev [0..<6] ! m)"
    using assms by (intro nth_map) simp
  with Some assms show ?thesis
    by (simp add: char_bits_def rev_upt6_nth del: upt_Suc)
qed

lemma agree_input:
  assumes one: "\<forall>x \<in> set xs. length x = 1"
  shows "agree (\<lambda>i. getBaseValue keyStrUriSafe (charAt (concat xs @ extra) i))
     (concat (map char_bits xs))"
  unfolding agree_def
proof (intro allI impI)
  fix i
  assume "i < length (concat (map char_bits xs))"
  moreover have l6: "\<forall>y \<in> set (map char_bits xs). length y = 6"
    by (simp add: length_char_bits)
  moreover have "length (concat (map char_bits ys)) = 6 * length ys" for ys
    by (induction ys) (simp_all add: length_char_bits)
  ultimately have i: "i < 6 * length xs"
    by simp
  then have j: "i div 6 < length xs"
    by (simp add: less_mult_imp_div_less mult.commute)
  have lc: "length (concat xs) = length xs"
    using one by (induction xs) simp_all
  have "concat xs ! (i div 6) = xs ! ((i div 6) div 1) ! ((i div 6) mod 1)"
    using one j by (intro nth_concat_uniform) simp_all
  then have c: "concat xs ! (i div 6) = xs ! (i div 6) ! 0"
    by simp
  from one j have "length (xs ! (i div 6)) = 1"
    by simp
  then have "xs ! (i div 6) = [xs ! (i div 6) ! 0]"
    by (cases "xs ! (i div 6)") simp_all
  with c have ch: "charAt (concat xs @ extra) (i div 6) = xs ! (i div 6)"
    using j lc by (simp add: charAt_def nth_append)
  have "concat (map char_bits xs) ! i = map char_bits xs ! (i div 6) ! (i mod 6)"
    using l6 i by (intro nth_concat_uniform) simp_all
  also have "\<dots> = char_bits (xs ! (i div 6)) ! (i mod 6)"
    using j by simp
  also have "\<dots> = stream (\<lambda>i. getBaseValue keyStrUriSafe (charAt (concat xs @ extra) i)) i"
    by (simp add: char_bits_nth stream_def ch)
  finally show "stream (\<lambda>i. getBaseValue keyStrUriSafe (charAt (concat xs @ extra) i)) i =
      concat (map char_bits xs) ! i"
    by simp
qed

section \<open>The first character and the header of the stream\<close>

definition first_context :: "16 word \<Rightarrow> compress_context" where
  "first_context u =
     compress_init\<lparr>context_dictionary := [[u] \<mapsto> 3],
                   context_dictSize := 4,
                   context_dictionaryToCreate := {[u]},
                   context_w := [u]\<rparr>"

definition first_state :: "16 word \<Rightarrow> dstream \<Rightarrow> decompress_state" where
  "first_state u d =
     \<lparr>dictionary = [DNum 0, DNum 1, DNum 2, DStr [u]],
      enlargeIn = 4,
      dictSize = 4,
      numBits = 3,
      w = Some [u],
      result = [Some [u]],
      data = d\<rparr>"

lemma compress_first: "compress_char bpc g compress_init u = first_context u"
  by (simp add: compress_char_def register_char_def compress_init_def first_context_def
      obj_set_char Let_def)

lemma first_context_facts:
  shows "enc_inv (first_context u)"
    and "writer_ok 6 g (first_context u)"
    and "written (first_context u) = []"
    and "fresh (first_context u)"
    and "ticks (first_context u) = (4, 3)"
    and "out_bits (first_context u) =
      vb 2 (if unat u < 256 then 0 else 1) @ vb (if unat u < 256 then 8 else 16) (unat u)"
  by (simp_all add: enc_inv_def first_context_def compress_init_def fresh_def writer_ok_def
      written_def ticks_def tick_def out_bits_def)

lemma header_literal:
  assumes ag: "agree gnv (vb 2 (if unat u < 256 then 0 else 1) @
      vb (if unat u < 256 then 8 else 16) (unat u) @ B)"
  shows "\<exists>d. LZ_decompress len 32 gnv = decompress_loop len 32 gnv (first_state u d) \<and>
      at_offset gnv (2 + (if unat u < 256 then 8 else 16)) d"
proof -
  let ?c0 = "if unat u < 256 then 0 else 1 :: nat"
  let ?n = "if unat u < 256 then 8 else 16 :: nat"
  let ?d0 = "\<lparr>val = gnv 0, position = 32, index = 1\<rparr>"
  have at0: "at_offset gnv (length ([] :: bool list)) ?d0"
    by (simp add: at_offset_def)
  have ag0: "agree gnv ([] @ vb 2 ?c0 @ (vb ?n (unat u) @ B))"
    using ag by simp
  have c0: "?c0 < 2 ^ 2"
    by simp
  obtain x1 d1 where r1: "read_bits gnv 32 2 ?d0 = (x1, d1)"
    by (cases "read_bits gnv 32 2 ?d0")
  have x1: "x1 = ?c0"
    using read_field(1) [OF ag0 c0 at0] r1 by simp
  have "at_offset gnv (length ([] :: bool list) + 2) (snd (read_bits gnv 32 2 ?d0))"
    using ag0 c0 at0 by (rule read_field(2))
  then have at1: "at_offset gnv (length (vb 2 ?c0)) d1"
    unfolding r1 by (simp only: length_vb list.size add_0 snd_conv)
  have "unat u < 2 ^ 16"
    using unsigned_less [of u, where ?'a = nat] by simp
  then have lt: "unat u < 2 ^ ?n"
    by simp
  obtain x2 d2 where r2: "read_bits gnv 32 ?n d1 = (x2, d2)"
    by (cases "read_bits gnv 32 ?n d1")
  have x2: "x2 = unat u"
    using read_field(1) [OF ag lt at1] r2 by simp
  have "at_offset gnv (length (vb 2 ?c0) + ?n) (snd (read_bits gnv 32 ?n d1))"
    using ag lt at1 by (rule read_field(2))
  then have at2: "at_offset gnv (2 + ?n) d2"
    unfolding r2 by (simp only: length_vb snd_conv)
  have "LZ_decompress len 32 gnv = decompress_loop len 32 gnv (first_state u d2)"
  proof (cases "unat u < 256")
    case True
    with r1 r2 x1 x2 have "read_bits gnv 32 2 ?d0 = (0, d1)" "read_bits gnv 32 8 d1 = (unat u, d2)"
      by simp_all
    then show ?thesis
      unfolding LZ_decompress_def Let_def
      by (simp add: first_state_def fromCharCode_def)
  next
    case False
    with r1 r2 x1 x2 have "read_bits gnv 32 2 ?d0 = (1, d1)" "read_bits gnv 32 16 d1 = (unat u, d2)"
      by simp_all
    then show ?thesis
      unfolding LZ_decompress_def Let_def
      by (simp add: first_state_def fromCharCode_def)
  qed
  with at2 show ?thesis
    by blast
qed



lemma first_state_fields:
  "dictionary (first_state u d) = [DNum 0, DNum 1, DNum 2, DStr [u]]"
  "enlargeIn (first_state u d) = 4"
  "dictSize (first_state u d) = 4"
  "numBits (first_state u d) = 3"
  "w (first_state u d) = Some [u]"
  "result (first_state u d) = [Some [u]]"
  "data (first_state u d) = d"
  by (simp_all add: first_state_def)

lemma second_char_synced:
  "synced (compress_char bpc g (first_context u1) u2) (first_state u1 d)"
proof -
  let ?E1 = "first_context u1"
  let ?E2 = "compress_char bpc g ?E1 u2"
  let ?D = "first_state u1 d"
  note fs = first_state_fields
  have inv: "enc_inv ?E1"
    by (rule first_context_facts)
  have r: "context_dictionary (register_char ?E1 [u2]) =
      (if u2 = u1 then [[u1] \<mapsto> 3] else [[u1] \<mapsto> 3, [u2] \<mapsto> 4])"
    "context_dictSize (register_char ?E1 [u2]) = (if u2 = u1 then 4 else 5)"
    by (auto simp: register_char_def first_context_def compress_init_def obj_set_char)
  have w1: "context_w ?E1 = [u1]" and ds1: "context_dictSize ?E1 = 4"
    by (simp_all add: first_context_def)
  have wc: "context_dictionary (register_char ?E1 [u2]) (context_w ?E1 @ [u2]) = None"
    unfolding r w1 by simp
  note f = emit_fields [OF inv wc, of bpc g]
  have new: "(context_dictionary ?E1 [u2] = None) = (u2 \<noteq> u1)"
    by (auto simp: first_context_def)
  have fr: "fresh ?E2 = (u2 \<noteq> u1)"
    by (simp add: fresh_def f new)
  have d2: "context_dictionary ?E2 =
      obj_set (if u2 = u1 then [[u1] \<mapsto> 3] else [[u1] \<mapsto> 3, [u2] \<mapsto> 4]) [u1, u2]
        (if u2 = u1 then 4 else 5)"
    unfolding f(1) r w1 by simp
  have kn: "known ?E2 ?D [u1]"
    unfolding known_def
  proof (intro allI impI)
    fix k i
    assume a: "context_dictionary ?E2 k = Some i"
    have "(k = [u1, u2] \<and> i = (if u2 = u1 then 4 else 5)) \<or>
        (if u2 = u1 then [[u1] \<mapsto> 3] else [[u1] \<mapsto> 3, [u2] \<mapsto> 4]) k = Some i"
      using a unfolding d2 by (rule obj_set_Some)
    then consider "k = [u1, u2]" "i = (if u2 = u1 then 4 else 5)"
      | "k = [u1]" "i = 3" | "u2 \<noteq> u1" "k = [u2]" "i = 4"
      by (cases "u2 = u1"; cases "k = [u1]"; cases "k = [u2]") simp_all
    then show "(3 \<le> i \<and> i < dictSize ?D \<and> dictionary ?D ! i = DStr k) \<or>
        (fresh ?E2 \<and> k = context_w ?E2 \<and> i = dictSize ?D) \<or>
        (k = [u1] @ [hd (context_w ?E2)] \<and>
         i = (if fresh ?E2 then dictSize ?D + 1 else dictSize ?D))"
    proof cases
      case 1
      then show ?thesis
        by (simp add: fr f fs)
    next
      case 2
      then show ?thesis
        by (simp add: fs)
    next
      case 3
      then show ?thesis
        by (simp add: fr f fs)
    qed
  qed
  have b5: "fresh ?E2 \<longrightarrow> context_dictionary ?E2 (context_w ?E2) = Some (dictSize ?D)"
    by (simp add: fr f(3) d2 obj_set_def fs)
  have tk: "fst (ticks ?E1) = 4" "snd (ticks ?E1) = 3"
    by (simp_all add: first_context_facts)
  have b6: "\<exists>p. w ?D = Some p \<and> p \<noteq> [] \<and> known ?E2 ?D p"
    using kn by (simp add: fs)
  have b1: "context_numBits ?E2 = numBits ?D" "context_enlargeIn ?E2 = enlargeIn ?D"
    "0 < enlargeIn ?D" "int (dictSize ?D) + enlargeIn ?D = 2 ^ numBits ?D"
    "length (dictionary ?D) = dictSize ?D" "4 \<le> dictSize ?D"
    "context_dictSize ?E2 = (if fresh ?E2 then dictSize ?D + 2 else dictSize ?D + 1)"
    by (simp_all add: f tk new fr ds1 fs)
  show ?thesis
    unfolding synced_def using b1 b5 b6 by blast
qed

section \<open>Decompression inverts compression\<close>

lemma LZ_decompress_correct:
  assumes ag: "agree gnv (written (finish (foldl (compress_char 6 (charAt keyStrUriSafe))
      compress_init us)))"
    and len: "length (written (finish (foldl (compress_char 6 (charAt keyStrUriSafe))
      compress_init us))) \<le> 6 * len"
  shows "LZ_decompress len 32 gnv = Returns (Some us)"
proof (cases us)
  case Nil
  let ?g = "charAt keyStrUriSafe"
  have ok: "writer_ok 6 ?g compress_init"
    by (rule compress_init_ok) simp
  from written_finish(1) [OF ok] obtain pad
    where W: "written (finish compress_init) = [] @ vb 2 2 @ vb pad 0"
    by (auto simp: compress_init_def written_def)
  let ?d0 = "\<lparr>val = gnv 0, position = 32, index = 1\<rparr>"
  have at0: "at_offset gnv (length ([] :: bool list)) ?d0"
    by (simp add: at_offset_def)
  have "agree gnv (written (finish compress_init))"
    using ag by (simp add: Nil)
  then have ag0: "agree gnv ([] @ vb 2 2 @ vb pad 0)"
    unfolding W .
  obtain x d1 where r: "read_bits gnv 32 2 ?d0 = (x, d1)"
    by (cases "read_bits gnv 32 2 ?d0")
  have "x = 2"
    using read_field(1) [OF ag0 _ at0] r by simp
  with r have "read_bits gnv 32 2 ?d0 = (2, d1)"
    by simp
  then show ?thesis
    unfolding LZ_decompress_def Let_def Nil by simp
next
  case (Cons u1 rest)
  let ?g = "charAt keyStrUriSafe"
  let ?E1 = "first_context u1"
  let ?n = "if unat u1 < 256 then 8 else 16 :: nat"
  note ff = first_context_facts [where u = u1]
  have ok1: "writer_ok 6 ?g ?E1"
    by (rule ff)
  have fold1: "foldl (compress_char 6 ?g) compress_init us = foldl (compress_char 6 ?g) ?E1 rest"
    unfolding Cons by (simp add: compress_first)
  show ?thesis
  proof (cases rest)
    case Nil
    have "context_w ?E1 \<noteq> []"
      by (simp add: first_context_def)
    with written_finish(1) [OF ok1] obtain pad where pad: "0 < pad"
      and W: "written (finish ?E1) = out_bits ?E1 @ vb 3 2 @ vb pad 0"
      by (auto simp: ff(3) ff(5))
    have ag1: "agree gnv (vb 2 (if unat u1 < 256 then 0 else 1) @ vb ?n (unat u1) @
        (vb 3 2 @ vb pad 0))"
      using ag unfolding fold1 Nil foldl_Nil W ff(6) by simp
    from header_literal [OF ag1, of len] obtain d
      where h: "LZ_decompress len 32 gnv = decompress_loop len 32 gnv (first_state u1 d)"
        and at: "at_offset gnv (2 + ?n) d"
      by blast
    have ag2: "agree gnv ((vb 2 (if unat u1 < 256 then 0 else 1) @ vb ?n (unat u1)) @
        vb 3 2 @ vb pad 0)"
      using ag1 by simp
    have at': "at_offset gnv (length (vb 2 (if unat u1 < 256 then 0 else 1) @ vb ?n (unat u1))) d"
      using at by simp
    obtain x d1 where r: "read_bits gnv 32 3 d = (x, d1)"
      by (cases "read_bits gnv 32 3 d")
    have "x = 2"
      using read_field(1) [OF ag2 _ at'] r by simp
    with r have "read_bits gnv 32 (numBits (first_state u1 d)) (data (first_state u1 d)) = (2, d1)"
      by (simp add: first_state_fields)
    then have p: "decompress_pass gnv 32 (first_state u1 d) =
        Inl (Returns (Some (join (result (first_state u1 d)))))"
      by (rule pass_end)
    have "2 + ?n < 6 * len"
      using len pad unfolding fold1 Nil foldl_Nil W ff(6) by simp
    from index_bound [OF at this] have "\<not> len < index (data (first_state u1 d))"
      by (simp add: first_state_fields)
    from loop_end [OF this p] h show ?thesis
      by (simp add: first_state_fields join_def Cons Nil)
  next
    case (Cons u2 rest')
    let ?E2 = "compress_char 6 ?g ?E1 u2"
    have inv1: "enc_inv ?E1"
      by (rule ff)
    have wc: "context_dictionary (register_char ?E1 [u2]) (context_w ?E1 @ [u2]) = None"
      by (auto simp: register_char_def first_context_def compress_init_def obj_set_char)
    have inv2: "enc_inv ?E2"
      using inv1 wc by (rule emit_keeps_enc_inv)
    have ok2: "writer_ok 6 ?g ?E2"
      using ok1 by (rule compress_char_ok)
    have w2: "written ?E2 = out_bits ?E1"
      using emit_written [OF inv1 ok1 wc] by (simp add: ff)
    have fold2: "foldl (compress_char 6 ?g) compress_init us = foldl (compress_char 6 ?g) ?E2 rest'"
      unfolding fold1 Cons by simp
    let ?W = "written (finish (foldl (compress_char 6 ?g) ?E2 rest'))"
    from written_foldl_prefix [OF ok2, of rest'] obtain X
      where X: "written (foldl (compress_char 6 ?g) ?E2 rest') = written ?E2 @ X"
      by blast
    have okf: "writer_ok 6 ?g (foldl (compress_char 6 ?g) ?E2 rest')"
      using ok2 by (rule foldl_compress_char_ok)
    from written_finish(1) [OF okf] obtain Y
      where Y: "?W = written (foldl (compress_char 6 ?g) ?E2 rest') @ Y"
      by blast
    have W: "?W = out_bits ?E1 @ (X @ Y)"
      unfolding Y X w2 by simp
    have ag1: "agree gnv (vb 2 (if unat u1 < 256 then 0 else 1) @ vb ?n (unat u1) @ (X @ Y))"
      using ag unfolding fold2 W ff(6) by simp
    from header_literal [OF ag1, of len] obtain d
      where h: "LZ_decompress len 32 gnv = decompress_loop len 32 gnv (first_state u1 d)"
        and at: "at_offset gnv (2 + ?n) d"
      by blast
    have at': "at_offset gnv (length (written ?E2)) (data (first_state u1 d))"
      using at unfolding w2 ff(6) by (simp add: first_state_fields)
    have syn: "synced ?E2 (first_state u1 d)"
      by (rule second_char_synced)
    have "decompress_loop len 32 gnv (first_state u1 d) =
        Returns (Some (join (result (first_state u1 d)) @ context_w ?E2 @ rest'))"
      using inv2 syn ok2 ag [unfolded fold2] at' len [unfolded fold2]
      by (rule decompress_follows)
    moreover have "context_w ?E2 = [u2]"
      using emit_fields(3) [OF inv1 wc] .
    ultimately show ?thesis
      using h by (simp add: first_state_fields join_def \<open>us = u1 # rest\<close> Cons)
  qed
qed

lemma finish_ok:
  "writer_ok 6 (charAt keyStrUriSafe) E \<Longrightarrow> writer_ok 6 (charAt keyStrUriSafe) (finish E)"
  by (simp add: finish_def flush_def Let_def write_value_ok output_w_ok)

lemma written_finish_concat:
  assumes ok: "writer_ok 6 (charAt keyStrUriSafe) E"
  shows "written (finish E) = concat (map char_bits (context_data (finish E)))"
proof -
  have "length (written (finish E)) =
      6 * length (context_data (finish E)) + context_data_position (finish E)"
    by (rule length_written) (simp add: length_char_bits)
  with written_finish(2) [OF ok] have "context_data_position (finish E) = 0"
    by simp
  then show ?thesis
    by (simp add: written_def)
qed

lemma pushed_single:
  assumes "writer_ok 6 (charAt keyStrUriSafe) E"
  shows "\<forall>x \<in> set (context_data E). length x = 1"
proof
  fix x
  assume "x \<in> set (context_data E)"
  with assms obtain v where "v < 64" "x = charAt keyStrUriSafe v"
    by (auto simp: writer_ok_def)
  then show "length x = 1"
    by (simp add: charAt_def length_keyStrUriSafe)
qed

lemma length_concat_single: "\<forall>x \<in> set xs. length x = 1 \<Longrightarrow> length (concat xs) = length xs"
  by (induction xs) simp_all

lemma decompress_compress_append:
  "decompressFromEncodedURIComponent (compressToEncodedURIComponent s @ extra) =
     Returns (Some s)"
proof -
  let ?g = "charAt keyStrUriSafe"
  let ?E = "finish (foldl (compress_char 6 ?g) compress_init s)"
  let ?t = "compressToEncodedURIComponent s"
  let ?repl = "\<lambda>u :: 16 word. if u = of_char CHR '' '' then of_char CHR ''+'' else u"
  have ok0: "writer_ok 6 ?g (foldl (compress_char 6 ?g) compress_init s)"
    by (rule foldl_compress_char_ok [OF compress_init_ok]) simp
  then have ok: "writer_ok 6 ?g ?E"
    by (rule finish_ok)
  have t: "?t = concat (context_data ?E)"
    by (simp add: compressToEncodedURIComponent_def LZ_compress_finish)
  have one: "\<forall>x \<in> set (context_data ?E). length x = 1"
    using ok by (rule pushed_single)
  have W: "written ?E = concat (map char_bits (context_data ?E))"
    using ok0 by (rule written_finish_concat)
  have lenW: "length (written ?E) = 6 * length (context_data ?E)"
    using ok0 by (rule written_finish(2))
  from written_finish(1) [OF ok0] have "written ?E \<noteq> []"
    by (auto simp: vb_def)
  with lenW have "context_data ?E \<noteq> []"
    by auto
  with one have tne: "?t \<noteq> []"
    unfolding t using length_concat_single [OF one] by (metis length_0_conv)
  have "(of_char CHR '' '' :: 16 word) \<notin> set (take 64 keyStrUriSafe)"
    unfolding take64_keyStrUriSafe by (simp add: ascii_def)
  with compressToEncodedURIComponent_alphabet [of s]
  have "\<forall>u \<in> set ?t. ?repl u = u"
    by auto
  then have "map ?repl ?t = ?t"
    by (intro map_idI) simp
  then have input: "map ?repl (?t @ extra) = concat (context_data ?E) @ map ?repl extra"
    by (simp add: t)
  let ?gnv = "\<lambda>i. getBaseValue keyStrUriSafe (charAt (concat (context_data ?E) @ map ?repl extra) i)"
  have ag: "agree ?gnv (written ?E)"
    unfolding W using one by (rule agree_input)
  have "length (written ?E) \<le> 6 * length (concat (context_data ?E) @ map ?repl extra)"
    unfolding lenW by (simp add: length_concat_single [OF one])
  with ag have "LZ_decompress (length (concat (context_data ?E) @ map ?repl extra)) 32 ?gnv
      = Returns (Some s)"
    by (rule LZ_decompress_correct)
  with tne show ?thesis
    unfolding decompressFromEncodedURIComponent_def Let_def input by simp
qed

lemma decompress_compress:
  "decompressFromEncodedURIComponent (compressToEncodedURIComponent s) = Returns (Some s)"
  using decompress_compress_append [of s "[]"] by simp

section \<open>The codec of App.tsx\<close>

lemma token_nonempty: "compressToEncodedURIComponent s \<noteq> []"
proof
  assume "compressToEncodedURIComponent s = []"
  then have "decompressFromEncodedURIComponent (compressToEncodedURIComponent s) = Returns None"
    by (simp add: decompressFromEncodedURIComponent_def)
  then show False
    by (simp add: decompress_compress)
qed

lemma JSON_stringify_nonempty: "JSON_stringify props \<noteq> []"
  by (simp add: JSON_stringify_def)

lemma decodeCode_compressed:
  "s \<noteq> [] \<Longrightarrow>
   decodeCode (compressToEncodedURIComponent s @ extra) =
     (case JSON_parse s of Throws \<Rightarrow> JNull | Returns v \<Rightarrow> v)"
  by (simp add: decodeCode_def decompress_compress_append)

lemma decodeCode_encodeCode_append:
  "decodeCode (encodeCode html css js @ extra) = Document html css js"
  by (simp add: encodeCode_def decodeCode_compressed JSON_stringify_nonempty
      JSON_parse_stringify_Document)

lemma get_property_Document:
  "get_property (Document html css js) (ascii ''html'') = Some (JString html)"
  "get_property (Document html css js) (ascii ''css'') = Some (JString css)"
  "get_property (Document html css js) (ascii ''js'') = Some (JString js)"
  using ascii_names_distinct by (simp_all add: Document_def)

lemma is_Document_Document: "is_Document (Document html css js)"
  using ascii_names_distinct by (simp add: Document_def is_Document_def has_string_def)

section \<open>Characters outside the alphabet\<close>




























section \<open>The fragment of a generated link\<close>

text \<open>The characters of a generated fragment are left as they are by the browser.\<close>

definition kept_in_fragment :: "16 word \<Rightarrow> bool" where
  "kept_in_fragment u \<longleftrightarrow> \<not> in_fragment_percent_encode_set (unat u)"

lemma kept_in_fragment_facts:
  assumes "kept_in_fragment u"
  shows "\<not> C0_control_or_space u" and "\<not> ASCII_tab_or_newline u"
    and "\<not> is_leading_surrogate u" and "\<not> is_trailing_surrogate u"
    and "utf8_percent_encode (unat u) = [u]"
proof -
  from assms have r: "0x20 < unat u" "unat u \<le> 0x7E"
    and n: "\<not> in_fragment_percent_encode_set (unat u)"
    by (simp_all add: kept_in_fragment_def in_fragment_percent_encode_set_def)
  show "\<not> C0_control_or_space u"
    using r by (simp add: C0_control_or_space_def word_le_nat_alt)
  show "\<not> ASCII_tab_or_newline u"
    using r by (auto simp: ASCII_tab_or_newline_def)
  show "\<not> is_leading_surrogate u" and "\<not> is_trailing_surrogate u"
    using r by (simp_all add: is_leading_surrogate_def is_trailing_surrogate_def word_le_nat_alt)
  show "utf8_percent_encode (unat u) = [u]"
    using r n by (simp add: utf8_percent_encode_def utf8_encode_def percent_encode_byte_def)
qed

lemma percent_encode_fragment_kept:
  "\<forall>u \<in> set s. kept_in_fragment u \<Longrightarrow> percent_encode_fragment s = s"
proof (induction s rule: percent_encode_fragment.induct)
  case 1
  then show ?case by simp
next
  case (2 u)
  then show ?case
    by (simp add: kept_in_fragment_facts)
next
  case (3 u v us)
  then show ?case
    by (simp add: kept_in_fragment_facts)
qed

lemma alphabet_kept_in_fragment:
  "\<forall>u \<in> set (take 64 keyStrUriSafe). kept_in_fragment u"
  unfolding take64_keyStrUriSafe
  by (simp add: ascii_def kept_in_fragment_def in_fragment_percent_encode_set_def)

lemma location_hash_fragment:
  assumes p: "0x23 \<notin> set p" and f: "\<forall>u \<in> set f. kept_in_fragment u" and ne: "f \<noteq> []"
  shows "location_hash (p @ 0x23 # f) = 0x23 # f"
proof -
  let ?p1 = "dropWhile C0_control_or_space p"
  have h: "\<not> C0_control_or_space 0x23"
    by (simp add: C0_control_or_space_def)
  have a: "dropWhile C0_control_or_space (p @ 0x23 # f) = ?p1 @ 0x23 # f"
    using h by (simp add: dropWhile_append3 dropWhile_append dropWhile_eq_Nil_conv)
  have "\<not> C0_control_or_space (last f)"
    using f ne by (simp add: kept_in_fragment_facts(1))
  then have "dropWhile C0_control_or_space (rev (?p1 @ 0x23 # f)) = rev (?p1 @ 0x23 # f)"
    using ne by (cases f rule: rev_cases) simp_all
  then have b: "rev (dropWhile C0_control_or_space (rev (?p1 @ 0x23 # f))) = ?p1 @ 0x23 # f"
    by (simp only: rev_rev_ident)
  let ?p2 = "filter (\<lambda>u. \<not> ASCII_tab_or_newline u) ?p1"
  have "filter (\<lambda>u. \<not> ASCII_tab_or_newline u) f = f"
    using f by (simp add: kept_in_fragment_facts(2))
  then have c: "filter (\<lambda>u. \<not> ASCII_tab_or_newline u) (?p1 @ 0x23 # f) = ?p2 @ 0x23 # f"
    by (simp add: ASCII_tab_or_newline_def)
  have "0x23 \<notin> set ?p2"
    using p by (auto dest: set_dropWhileD)
  then have d: "dropWhile (\<lambda>u. u \<noteq> 0x23) (?p2 @ 0x23 # f) = 0x23 # f"
    by (subst dropWhile_append2) auto
  show ?thesis
    unfolding location_hash_def Let_def a b c d
    using ne by (simp add: percent_encode_fragment_kept [OF f])
qed

lemma location_hash_generateLink:
  assumes "0x23 \<notin> set (origin @ pathname)"
  shows "drop 1 (location_hash (generateLink origin pathname html css js viewOnly)) =
     (if viewOnly then ascii ''view/'' else []) @ encodeCode html css js"
proof -
  let ?f = "(if viewOnly then ascii ''view/'' else []) @ encodeCode html css js"
  have t: "\<forall>u \<in> set (encodeCode html css js). kept_in_fragment u"
    using compressToEncodedURIComponent_alphabet alphabet_kept_in_fragment
    unfolding encodeCode_def Let_def by blast
  have v: "\<forall>u \<in> set (ascii ''view/''). kept_in_fragment u"
    by (simp add: ascii_def kept_in_fragment_def in_fragment_percent_encode_set_def)
  have f: "\<forall>u \<in> set ?f. kept_in_fragment u"
    using t v by auto
  have ne: "?f \<noteq> []"
    by (simp add: encodeCode_def token_nonempty)
  have "generateLink origin pathname html css js viewOnly = (origin @ pathname) @ 0x23 # ?f"
    by (simp add: generateLink_def ascii_def)
  then show ?thesis
    using location_hash_fragment [OF assms f ne] by simp
qed

section \<open>Decoding, malformed tokens and links\<close>

text \<open>
  C1. Round trip: for every three strings of code units (empty, ASCII, right-to-left
  text, emoji, lone surrogates, quotes, braces, backslashes, newlines), decoding the
  token produced by encoding them returns the Document with exactly these three fields.
\<close>

theorem decodeCode_encodeCode:
  "decodeCode (encodeCode html css js) =
     JObject [(ascii ''html'', JString html), (ascii ''css'', JString css),
              (ascii ''js'', JString js)]"
  using decodeCode_encodeCode_append [of html css js "[]"] by (simp add: Document_def)

text \<open>
  C3. For every input string \<open>decodeCode\<close> returns (the model is a total function, the
  loop of the decompressor having a termination proof, and every exception is turned into
  \<^verbatim>\<open>null\<close>), but the value returned need not be a Document or \<^verbatim>\<open>null\<close>: the token of
  the JSON text \<open>{}\<close> decodes to an object with no fields at all.
\<close>

theorem decodeCode_not_a_Document:
  "decodeCode (compressToEncodedURIComponent (ascii ''{}'')) = JObject [] \<and>
   \<not> is_Document (JObject []) \<and> JObject [] \<noteq> JNull"
proof -
  have "JSON_parse (ascii ''{}'') = Returns (JObject [])"
    by (simp add: JSON_parse_def ascii_def parse_step_def start_value_def)
  moreover have ne: "ascii ''{}'' \<noteq> []"
    by (simp add: ascii_def)
  ultimately have "decodeCode (compressToEncodedURIComponent (ascii ''{}'')) = JObject []"
    using decodeCode_compressed [OF ne, of "[]"] by simp
  then show ?thesis
    by (simp add: is_Document_def has_string_def)
qed




text \<open>
  C5, as stated, fails: the intermediate string \<open>{"html":"x"}\<close> has one field instead
  of three, and its token decodes to an object whose \<open>css\<close> and \<open>js\<close> are missing.
\<close>

theorem partial_payload_counterexample:
  "JSON_parse ([0x7B, 0x22] @ ascii ''html'' @ [0x22, 0x3A, 0x22, 0x78, 0x22, 0x7D]) =
     Returns (JObject [(ascii ''html'', JString [0x78])]) \<and>
   decodeCode (compressToEncodedURIComponent
     ([0x7B, 0x22] @ ascii ''html'' @ [0x22, 0x3A, 0x22, 0x78, 0x22, 0x7D])) =
     JObject [(ascii ''html'', JString [0x78])] \<and>
   \<not> is_Document (JObject [(ascii ''html'', JString [0x78])])"
proof -
  let ?p = "[0x7B, 0x22] @ ascii ''html'' @ [0x22, 0x3A, 0x22, 0x78, 0x22, 0x7D]"
  have p: "JSON_parse ?p = Returns (JObject [(ascii ''html'', JString [0x78])])"
    by (simp add: JSON_parse_def ascii_def parse_step_def start_value_def)
  have "decodeCode (compressToEncodedURIComponent ?p @ []) =
      (case JSON_parse ?p of Throws \<Rightarrow> JNull | Returns v \<Rightarrow> v)"
    by (rule decodeCode_compressed) simp
  with p show ?thesis
    using ascii_names_distinct by (simp add: is_Document_def has_string_def)
qed

text \<open>
  C5, amended. For every intermediate string that is not a well-formed JSON text
  (truncated, broken escaping, unbalanced braces), \<open>decodeCode\<close> of its token returns
  \<^verbatim>\<open>null\<close>, the one failure value of the code, and throws nothing.
\<close>

theorem malformed_payload_is_null:
  "JSON_parse s = Throws \<Longrightarrow> decodeCode (compressToEncodedURIComponent s) = JNull"
proof (cases "s = []")
  case True
  then show ?thesis
    using decompress_compress [of "[]"] by (simp add: decodeCode_def)
next
  case False
  assume "JSON_parse s = Throws"
  with decodeCode_compressed [OF False, of "[]"] show ?thesis
    by simp
qed

theorem malformed_payload_is_null_witness:
  "JSON_parse ([0x7B, 0x22] @ ascii ''html'' @ [0x22, 0x3A, 0x22, 0x3C, 0x70]) = Throws \<and>
   decodeCode (compressToEncodedURIComponent
     ([0x7B, 0x22] @ ascii ''html'' @ [0x22, 0x3A, 0x22, 0x3C, 0x70])) = JNull"
proof -
  have h: "JSON_parse ([0x7B, 0x22] @ ascii ''html'' @ [0x22, 0x3A, 0x22, 0x3C, 0x70]) = Throws"
    by (simp add: JSON_parse_def ascii_def)
  from h malformed_payload_is_null [OF h] show ?thesis
    by blast
qed

text \<open>
  C7. For every Document the preview-only link and the editor link carry the same
  token, the mode being the prefix \<open>view/\<close> of the fragment and nothing inside the token;
  and loading either link (origin and path holding no \<open>#\<close>) stores the same three
  fields, the preview-only link switching the view mode to preview as well.
\<close>

theorem view_link_same_token:
  "0x23 \<notin> set (origin @ pathname) \<Longrightarrow>
   generateLink origin pathname html css js True =
     origin @ pathname @ ascii ''#view/'' @ encodeCode html css js \<and>
   generateLink origin pathname html css js False =
     origin @ pathname @ ascii ''#'' @ encodeCode html css js \<and>
   load_from_hash (location_hash (generateLink origin pathname html css js viewOnly)) st =
     st\<lparr>state_html := Some (JString html), state_css := Some (JString css),
        state_js := Some (JString js),
        viewMode := (if viewOnly then Preview else viewMode st)\<rparr>"
proof (intro conjI)
  assume h: "0x23 \<notin> set (origin @ pathname)"
  show "generateLink origin pathname html css js True =
      origin @ pathname @ ascii ''#view/'' @ encodeCode html css js"
    and "generateLink origin pathname html css js False =
      origin @ pathname @ ascii ''#'' @ encodeCode html css js"
    by (simp_all add: generateLink_def)
  let ?t = "encodeCode html css js"
  have ne: "?t \<noteq> []"
    by (simp add: encodeCode_def token_nonempty)
  have sp: "split_hash ((if viewOnly then ascii ''view/'' else []) @ ?t) = (viewOnly, ?t)"
    by (simp add: split_hash_view) (simp add: encodeCode_def split_hash_token)
  have dec: "decodeCode ?t = Document html css js"
    using decodeCode_encodeCode_append [of html css js "[]"] by simp
  have tb: "ToBoolean (Document html css js)"
    by (simp add: Document_def)
  show "load_from_hash (location_hash (generateLink origin pathname html css js viewOnly)) st =
      st\<lparr>state_html := Some (JString html), state_css := Some (JString css),
         state_js := Some (JString js),
         viewMode := (if viewOnly then Preview else viewMode st)\<rparr>"
    unfolding load_from_hash_def Let_def location_hash_generateLink [OF h] sp prod.case dec
    using ne tb by (simp add: get_property_Document)
qed

theorem view_link_same_token_witness:
  "0x23 \<notin> set (ascii ''https://play.example'' @ ascii ''/app/'') \<and>
   generateLink (ascii ''https://play.example'') (ascii ''/app/'') (ascii ''<p>hi</p>'')
       (ascii ''p{color:red}'') (ascii ''console.log(1)'') True =
     ascii ''https://play.example'' @ ascii ''/app/'' @ ascii ''#view/'' @
     encodeCode (ascii ''<p>hi</p>'') (ascii ''p{color:red}'') (ascii ''console.log(1)'') \<and>
   generateLink (ascii ''https://play.example'') (ascii ''/app/'') (ascii ''<p>hi</p>'')
       (ascii ''p{color:red}'') (ascii ''console.log(1)'') False =
     ascii ''https://play.example'' @ ascii ''/app/'' @ ascii ''#'' @
     encodeCode (ascii ''<p>hi</p>'') (ascii ''p{color:red}'') (ascii ''console.log(1)'') \<and>
   load_from_hash (location_hash
       (generateLink (ascii ''https://play.example'') (ascii ''/app/'') (ascii ''<p>hi</p>'')
          (ascii ''p{color:red}'') (ascii ''console.log(1)'') True))
       \<lparr>state_html = None, state_css = None, state_js = None, viewMode = Both\<rparr> =
     \<lparr>state_html = Some (JString (ascii ''<p>hi</p>'')),
      state_css = Some (JString (ascii ''p{color:red}'')),
      state_js = Some (JString (ascii ''console.log(1)'')), viewMode = Preview\<rparr>"
proof -
  have h: "0x23 \<notin> set (ascii ''https://play.example'' @ ascii ''/app/'')"
    by (simp add: ascii_def)
  note t = view_link_same_token [OF h, of "ascii ''<p>hi</p>''" "ascii ''p{color:red}''"
      "ascii ''console.log(1)''" True
      "\<lparr>state_html = None, state_css = None, state_js = None, viewMode = Both\<rparr>"]
  show ?thesis
  proof (intro conjI)
    show "0x23 \<notin> set (ascii ''https://play.example'' @ ascii ''/app/'')"
      by (rule h)
    show "generateLink (ascii ''https://play.example'') (ascii ''/app/'') (ascii ''<p>hi</p>'')
       (ascii ''p{color:red}'') (ascii ''console.log(1)'') True =
     ascii ''https://play.example'' @ ascii ''/app/'' @ ascii ''#view/'' @
     encodeCode (ascii ''<p>hi</p>'') (ascii ''p{color:red}'') (ascii ''console.log(1)'')"
      by (rule t [THEN conjunct1])
    show "generateLink (ascii ''https://play.example'') (ascii ''/app/'') (ascii ''<p>hi</p>'')
       (ascii ''p{color:red}'') (ascii ''console.log(1)'') False =
     ascii ''https://play.example'' @ ascii ''/app/'' @ ascii ''#'' @
     encodeCode (ascii ''<p>hi</p>'') (ascii ''p{color:red}'') (ascii ''console.log(1)'')"
      by (rule t [THEN conjunct2, THEN conjunct1])
    show "load_from_hash (location_hash
       (generateLink (ascii ''https://play.example'') (ascii ''/app/'') (ascii ''<p>hi</p>'')
          (ascii ''p{color:red}'') (ascii ''console.log(1)'') True))
       \<lparr>state_html = None, state_css = None, state_js = None, viewMode = Both\<rparr> =
     \<lparr>state_html = Some (JString (ascii ''<p>hi</p>'')),
      state_css = Some (JString (ascii ''p{color:red}'')),
      state_js = Some (JString (ascii ''console.log(1)'')), viewMode = Preview\<rparr>"
      by (simp only: t [THEN conjunct2, THEN conjunct2]) simp
  qed
qed

text \<open>
  C9. The intermediate string of \<open>encodeCode\<close> holds exactly the three field values in
  one fixed order, markup (\<open>html\<close>), then style (\<open>css\<close>), then script (\<open>js\<close>): the token
  is the compression of the three quoted name-value pairs in this order between braces,
  decompressing the token gives this very string back, its tokens are those thirteen, and
  \<open>decodeCode\<close> finds each value under the name it was written with.
\<close>

theorem encodeCode_field_order:
  "encodeCode html css js =
     compressToEncodedURIComponent
       ([0x7B] @ QuoteJSONString (ascii ''html'') @ [0x3A] @ QuoteJSONString html @ [0x2C] @
        QuoteJSONString (ascii ''css'') @ [0x3A] @ QuoteJSONString css @ [0x2C] @
        QuoteJSONString (ascii ''js'') @ [0x3A] @ QuoteJSONString js @ [0x7D]) \<and>
   decompressFromEncodedURIComponent (encodeCode html css js) =
     Returns (Some
       ([0x7B] @ QuoteJSONString (ascii ''html'') @ [0x3A] @ QuoteJSONString html @ [0x2C] @
        QuoteJSONString (ascii ''css'') @ [0x3A] @ QuoteJSONString css @ [0x2C] @
        QuoteJSONString (ascii ''js'') @ [0x3A] @ QuoteJSONString js @ [0x7D])) \<and>
   tokenize
       ([0x7B] @ QuoteJSONString (ascii ''html'') @ [0x3A] @ QuoteJSONString html @ [0x2C] @
        QuoteJSONString (ascii ''css'') @ [0x3A] @ QuoteJSONString css @ [0x2C] @
        QuoteJSONString (ascii ''js'') @ [0x3A] @ QuoteJSONString js @ [0x7D]) =
     Some [TLBrace, TString (ascii ''html''), TColon, TString html, TComma,
           TString (ascii ''css''), TColon, TString css, TComma,
           TString (ascii ''js''), TColon, TString js, TRBrace] \<and>
   get_property (decodeCode (encodeCode html css js)) (ascii ''html'') = Some (JString html) \<and>
   get_property (decodeCode (encodeCode html css js)) (ascii ''css'') = Some (JString css) \<and>
   get_property (decodeCode (encodeCode html css js)) (ascii ''js'') = Some (JString js)"
proof -
  let ?S = "[0x7B] @ QuoteJSONString (ascii ''html'') @ [0x3A] @ QuoteJSONString html @ [0x2C] @
        QuoteJSONString (ascii ''css'') @ [0x3A] @ QuoteJSONString css @ [0x2C] @
        QuoteJSONString (ascii ''js'') @ [0x3A] @ QuoteJSONString js @ [0x7D]"
  have S: "JSON_stringify [(ascii ''html'', html), (ascii ''css'', css), (ascii ''js'', js)] = ?S"
    by (simp add: JSON_stringify_def)
  have e: "encodeCode html css js = compressToEncodedURIComponent ?S"
    unfolding encodeCode_def Let_def S by (rule refl)
  have d: "decompressFromEncodedURIComponent (encodeCode html css js) = Returns (Some ?S)"
    unfolding e by (rule decompress_compress)
  have t: "tokenize ?S =
     Some [TLBrace, TString (ascii ''html''), TColon, TString html, TComma,
           TString (ascii ''css''), TColon, TString css, TComma,
           TString (ascii ''js''), TColon, TString js, TRBrace]"
    using tokenize_stringify3 [of "ascii ''html''" html "ascii ''css''" css "ascii ''js''" js]
    unfolding S .
  have dec: "decodeCode (encodeCode html css js) = Document html css js"
    using decodeCode_encodeCode_append [of html css js "[]"] by simp
  show ?thesis
    unfolding dec get_property_Document using e d t by blast
qed

text \<open>
  C10. No token produced by \<open>encodeCode\<close> contains the character \<open>/\<close>. So the fragment
  of an editor link never begins with \<open>view/\<close>, and for every generated link (whose
  origin and path hold no \<open>#\<close>) the loader's prefix test returns the mode the link was
  generated with, together with the token exactly.
\<close>

theorem token_has_no_slash:
  "0x23 \<notin> set (origin @ pathname) \<Longrightarrow>
   0x2F \<notin> set (encodeCode html css js) \<and>
   \<not> startsWith (encodeCode html css js) (ascii ''view/'') \<and>
   split_hash (drop 1 (location_hash (generateLink origin pathname html css js viewOnly))) =
     (viewOnly, encodeCode html css js)"
proof (intro conjI)
  assume h: "0x23 \<notin> set (origin @ pathname)"
  show "0x2F \<notin> set (encodeCode html css js)"
    by (simp add: encodeCode_def slash_not_in_token)
  show "\<not> startsWith (encodeCode html css js) (ascii ''view/'')"
    by (simp add: encodeCode_def token_not_view)
  show "split_hash (drop 1 (location_hash (generateLink origin pathname html css js viewOnly))) =
     (viewOnly, encodeCode html css js)"
    unfolding location_hash_generateLink [OF h]
    by (simp add: split_hash_view) (simp add: encodeCode_def split_hash_token)
qed

theorem token_has_no_slash_witness:
  "0x23 \<notin> set (ascii ''https://play.example'' @ ascii ''/app/'') \<and>
   0x2F \<notin> set (encodeCode [] [] []) \<and>
   \<not> startsWith (encodeCode [] [] []) (ascii ''view/'') \<and>
   split_hash (drop 1 (location_hash
     (generateLink (ascii ''https://play.example'') (ascii ''/app/'') [] [] [] True))) =
     (True, encodeCode [] [] [])"
proof -
  have h: "0x23 \<notin> set (ascii ''https://play.example'' @ ascii ''/app/'')"
    by (simp add: ascii_def)
  from h token_has_no_slash [OF h, of "[]" "[]" "[]" True] show ?thesis
    by blast
qed

end
